theory Spec2Isabelle
  imports Main
begin



section \<open>C integers\<close>

text \<open>
  The programs are third.c (the parallel count) and count_char.c (the single pass). Values of
  the C types \<open>int\<close>, \<open>off_t\<close>, \<open>time_t\<close> and \<open>long long\<close> are integers; \<open>wrap_ll\<close>
  is the two's complement wrap-around of a 64-bit signed value, applied wherever the source
  adds to a \<open>long long\<close> counter. Bytes are \<open>char\<close>, buffers and texts are \<open>string\<close>.
\<close>

definition INT_MAX :: int where
  "INT_MAX = 2147483647"

definition LLONG_MAX :: int where
  "LLONG_MAX = 9223372036854775807"

definition EXIT_SUCCESS :: int where
  "EXIT_SUCCESS = 0"

definition EXIT_FAILURE :: int where
  "EXIT_FAILURE = 1"

definition wrap_ll :: "int \<Rightarrow> int" where
  "wrap_ll x = (x + 2 ^ 63) mod 2 ^ 64 - 2 ^ 63"

text \<open>
  Division and remainder of C integers truncate towards zero.
\<close>

definition tdiv :: "int \<Rightarrow> int \<Rightarrow> int" where
  "tdiv a b = sgn a * sgn b * (\<bar>a\<bar> div \<bar>b\<bar>)"

definition tmod :: "int \<Rightarrow> int \<Rightarrow> int" where
  "tmod a b = a - b * tdiv a b"

text \<open>
  The 8 bytes of a \<open>long long\<close> in memory (least significant byte first) and the value of
  8 bytes of memory: what \<open>write(fd, &count, sizeof(count))\<close> sends and what
  \<open>child_count\<close> holds after the reads.
\<close>

definition bytes_of_ll :: "int \<Rightarrow> string" where
  "bytes_of_ll v = map (\<lambda>k. char_of (v div 256 ^ k)) [0..<8]"

definition ll_of_bytes :: "string \<Rightarrow> int" where
  "ll_of_bytes mem = wrap_ll (foldr (\<lambda>b acc. of_char b + 256 * acc) mem 0)"

text \<open>
  The decimal text that \<open>%d\<close> and \<open>%lld\<close> print.
\<close>

function show_nat :: "nat \<Rightarrow> string" where
  "show_nat n = (if n < 10 then [''0123456789'' ! n]
                 else show_nat (n div 10) @ [''0123456789'' ! (n mod 10)])"
  by pat_completeness auto
termination
  by (relation "measure id") auto

declare show_nat.simps [simp del]

definition show_int :: "int \<Rightarrow> string" where
  "show_int x = (if x < 0 then CHR ''-'' # show_nat (nat (- x)) else show_nat (nat x))"

text \<open>
  \<open>atoi\<close> of the C library: white space is skipped, then an optional sign, then the longest
  run of decimal digits is read; the value is 0 when there is no digit. The C standard leaves
  the result undefined when the value does not fit an \<open>int\<close>: that is \<open>None\<close> here.
\<close>

definition isspace :: "char \<Rightarrow> bool" where
  "isspace ch \<longleftrightarrow> ch \<in> {CHR '' '', CHR 0x09, CHR 0x0A, CHR 0x0B, CHR 0x0C, CHR 0x0D}"

definition isdigit :: "char \<Rightarrow> bool" where
  "isdigit ch \<longleftrightarrow> (48::nat) \<le> of_char ch \<and> (of_char ch :: nat) \<le> 57"

fun digits_val :: "string \<Rightarrow> int \<Rightarrow> int" where
  "digits_val [] acc = acc"
| "digits_val (ch # cs) acc =
     (if isdigit ch then digits_val cs (10 * acc + (of_char ch - 48)) else acc)"

definition atoi :: "string \<Rightarrow> int option" where
  "atoi s =
     (let t = dropWhile isspace s;
          v = (case t of
                 [] \<Rightarrow> 0
               | ch # cs \<Rightarrow>
                   if ch = CHR ''-'' then - digits_val cs 0
                   else if ch = CHR ''+'' then digits_val cs 0
                   else digits_val t 0)
      in if - INT_MAX - 1 \<le> v \<and> v \<le> INT_MAX then Some v else None)"


section \<open>Segment planning (third.c, lines 154-156 and 188-190)\<close>

text \<open>
  \<open>base_size = file_size / P\<close>, \<open>remainder = file_size % P\<close>, and in worker \<open>i\<close>:
  \<open>start = i * base_size + (i < remainder ? i : remainder)\<close>,
  \<open>segment_size = base_size + (i < remainder ? 1 : 0)\<close>, \<open>end = start + segment_size\<close>.
\<close>

definition base_size :: "int \<Rightarrow> int \<Rightarrow> int" where
  "base_size file_size P = tdiv file_size P"

definition remainder :: "int \<Rightarrow> int \<Rightarrow> int" where
  "remainder file_size P = tmod file_size P"

definition seg_start :: "int \<Rightarrow> int \<Rightarrow> int \<Rightarrow> int" where
  "seg_start file_size P i =
     i * base_size file_size P + (if i < remainder file_size P then i else remainder file_size P)"

definition segment_size :: "int \<Rightarrow> int \<Rightarrow> int \<Rightarrow> int" where
  "segment_size file_size P i =
     base_size file_size P + (if i < remainder file_size P then 1 else 0)"

definition seg_end :: "int \<Rightarrow> int \<Rightarrow> int \<Rightarrow> int" where
  "seg_end file_size P i = seg_start file_size P i + segment_size file_size P i"

section \<open>The scans\<close>

text \<open>
  The worker's loop (third.c, lines 191-198):
  \<open>for (off_t j = start; j < end; j++) if (buf[j] == char_to_read[0]) count++;\<close>.
  A read outside the buffer has no defined result: \<open>None\<close>. The delay \<open>usleep\<close> is left out.
\<close>

function scan :: "string \<Rightarrow> char \<Rightarrow> int \<Rightarrow> int \<Rightarrow> int \<Rightarrow> int option" where
  "scan buf c j end_j count =
     (if j < end_j then
        (if 0 \<le> j \<and> j < int (length buf)
         then scan buf c (j + 1) end_j (if buf ! nat j = c then wrap_ll (count + 1) else count)
         else None)
      else Some count)"
  by pat_completeness auto
termination
  by (relation "measure (\<lambda>(buf, c, j, end_j, count). nat (end_j - j))") auto

declare scan.simps [simp del]

definition child_count :: "string \<Rightarrow> char \<Rightarrow> int \<Rightarrow> int \<Rightarrow> int \<Rightarrow> int option" where
  "child_count buf c file_size P i =
     (let start = seg_start file_size P i;
          end_j = start + segment_size file_size P i
      in scan buf c start end_j 0)"

text \<open>
  The loop of count_char.c (lines 96-102):
  \<open>for (int i = 0; i < file_stat.st_size; i++) if (buf[i] == char_to_read[0]) count++;\<close>.
  Its index is an \<open>int\<close>: incrementing it at \<open>INT_MAX\<close> has no defined result, as has a
  read outside the buffer: \<open>None\<close>.
\<close>

function count_char_loop :: "string \<Rightarrow> char \<Rightarrow> int \<Rightarrow> int \<Rightarrow> int \<Rightarrow> int option" where
  "count_char_loop buf c st_size i count =
     (if i < st_size then
        (if 0 \<le> i \<and> i < int (length buf) \<and> i < INT_MAX
         then count_char_loop buf c st_size (i + 1)
                (if buf ! nat i = c then wrap_ll (count + 1) else count)
         else None)
      else Some count)"
  by pat_completeness auto
termination
  by (relation "measure (\<lambda>(buf, c, st_size, i, count). nat (st_size - i))") auto

declare count_char_loop.simps [simp del]

definition count_char :: "string \<Rightarrow> char \<Rightarrow> int option" where
  "count_char buf c = count_char_loop buf c (int (length buf)) 0 0"

section \<open>System calls and their answers\<close>

text \<open>
  The answers of the operating system are inputs of the model. \<open>errno\<close> is \<open>EINTR\<close> or
  any other value; \<open>select\<close> returns a positive number with the descriptor set, 0 with the
  set cleared after 5 seconds, or -1; \<open>read\<close> returns the bytes it copied (none at end of
  file) or -1; \<open>write\<close> returns a number, -1 for an error. A \<open>world\<close> holds the answers
  to every call of main, in the order of the calls: a list for a call that is repeated in a
  loop, a function of the worker's index for the calls made once for each worker. An
  \<open>event\<close> is what main does that can be observed: a line on standard output or the
  error stream, a \<open>perror\<close> message, a pipe created, a worker forked, the assignment to
  \<open>active_children\<close>, a worker waited for.
\<close>

datatype errno = EINTR | EOTHER

datatype select_result = SelectReady | SelectTimeout | SelectError errno

datatype read_result = ReadBytes string | ReadError errno

datatype fd_state = FdIsSet | FdNotSet | SelectFailed

datatype event =
    Stdout string
  | Stderr string
  | Perror string
  | PipeCreated nat
  | Forked nat
  | ActiveChildren int
  | Waited nat

record world =
  argv :: "string list"
  open_input :: bool
  fstat_input :: "int option"
  malloc_buf :: bool
  input_reads :: "read_result list"
  getenv_P :: "string option"
  sigaction_int :: bool
  sigaction_chld :: bool
  malloc_pipes :: bool
  malloc_pids :: bool
  pipe_ok :: "nat \<Rightarrow> bool"
  fork_ok :: "nat \<Rightarrow> bool"
  selects :: "nat \<Rightarrow> select_result list"
  reads :: "nat \<Rightarrow> read_result list"
  child_exits :: "nat \<Rightarrow> bool"
  open_output :: bool
  output_writes :: "int list"

definition line :: "string \<Rightarrow> string" where
  "line s = s @ [CHR 0x0A]"

definition quoted :: "char \<Rightarrow> string" where
  "quoted c = [CHR 0x27, c, CHR 0x27]"

section \<open>The worker (third.c, lines 184-207)\<close>

text \<open>
  The worker after the fork: it counts its segment, calls \<open>write\<close> once, and exits with
  EXIT_FAILURE when the return value is not \<open>sizeof(count)\<close>, with EXIT_SUCCESS otherwise.
  The result is its messages, the bytes it put in the pipe, its exit status and the answers of
  \<open>write\<close> it did not use; \<open>None\<close> when the scan has no defined result or no answer is left.
\<close>

definition child :: "string \<Rightarrow> char \<Rightarrow> int \<Rightarrow> int \<Rightarrow> int \<Rightarrow> int list
    \<Rightarrow> (event list \<times> string \<times> int \<times> int list) option" where
  "child buf c file_size P i writes =
     (case child_count buf c file_size P i of
        None \<Rightarrow> None
      | Some count \<Rightarrow>
          (case writes of
             [] \<Rightarrow> None
           | ret # rest \<Rightarrow>
               if ret \<noteq> 8
               then Some ([Perror ''Error writing to pipe in child''],
                          take (nat ret) (bytes_of_ll count), EXIT_FAILURE, rest)
               else Some ([], bytes_of_ll count, EXIT_SUCCESS, rest)))"

section \<open>The coordinator (third.c, main)\<close>

text \<open>
  The loops of main are recursive over the answers they consume; a loop that has not ended
  when the answers are used up has not returned: \<open>None\<close>. \<open>read_input\<close> is the loop
  that reads the file (lines 97-107): -1 is fatal (\<open>Some None\<close>), any other return value is
  added to \<open>total_read\<close>.
\<close>

fun read_input :: "read_result list \<Rightarrow> int \<Rightarrow> string \<Rightarrow> string option option" where
  "read_input [] st_size buf =
     (if int (length buf) < st_size then None else Some (Some buf))"
| "read_input (r # rs) st_size buf =
     (if int (length buf) < st_size then
        (case r of
           ReadError e \<Rightarrow> Some None
         | ReadBytes d \<Rightarrow>
             read_input rs st_size (buf @ take (nat (st_size - int (length buf))) d))
      else Some (Some buf))"

text \<open>
  Lines 111-123: \<open>P\<close> is 4, or \<open>atoi(getenv("P"))\<close> when the variable is set, and then a
  value \<open>P <= 0\<close> ends main with EXIT_FAILURE (\<open>None\<close> in the second component).
\<close>

definition read_P :: "string option \<Rightarrow> (event list \<times> int option) option" where
  "read_P env_p =
     (case env_p of
        None \<Rightarrow> Some ([], Some 4)
      | Some s \<Rightarrow>
          (case atoi s of
             None \<Rightarrow> None
           | Some P \<Rightarrow>
               if P \<le> 0
               then Some ([Stdout (line (''P environment variable found: '' @ show_int P)),
                           Stderr (line ''Invalid value for P. Must be positive.'')], None)
               else Some ([Stdout (line (''P environment variable found: '' @ show_int P))],
                          Some P)))"

text \<open>
  Lines 167-213, in the parent: a pipe and a fork for each worker, in order; the first call
  that fails ends main.
\<close>

fun spawn :: "world \<Rightarrow> nat list \<Rightarrow> event list \<times> bool" where
  "spawn w [] = ([], True)"
| "spawn w (i # is) =
     (if \<not> pipe_ok w i then ([Perror ''pipe error''], False)
      else if \<not> fork_ok w i then ([PipeCreated i, Perror ''fork error''], False)
      else (case spawn w is of (evs, ok) \<Rightarrow> (PipeCreated i # Forked i # evs, ok)))"

text \<open>
  Lines 223-241: \<open>select\<close> is called again after \<open>EINTR\<close>, any other error is fatal;
  otherwise the loop is left and \<open>FD_ISSET\<close> tells a readable pipe from a timeout.
\<close>

fun select_loop :: "select_result list \<Rightarrow> fd_state option" where
  "select_loop [] = None"
| "select_loop (SelectError e # rs) = (if e = EINTR then select_loop rs else Some SelectFailed)"
| "select_loop (SelectReady # rs) = Some FdIsSet"
| "select_loop (SelectTimeout # rs) = Some FdNotSet"

text \<open>
  Lines 243-257: the bytes of each read are copied into \<open>child_count\<close> at offset
  \<open>read_bytes\<close>, at most \<open>sizeof(child_count) - read_bytes\<close> of them; \<open>EINTR\<close> is
  retried, any other error is fatal (\<open>Some None\<close>), and a read of 0 bytes leaves the loop.
\<close>

fun read_count :: "read_result list \<Rightarrow> string \<Rightarrow> nat \<Rightarrow> string option option" where
  "read_count [] child_count_mem read_bytes =
     (if read_bytes < 8 then None else Some (Some child_count_mem))"
| "read_count (r # rs) child_count_mem read_bytes =
     (if read_bytes < 8 then
        (case r of
           ReadError e \<Rightarrow>
             if e = EINTR then read_count rs child_count_mem read_bytes else Some None
         | ReadBytes d \<Rightarrow>
             (let got = take (8 - read_bytes) d; n = length got
              in if n = 0 then Some (Some child_count_mem)
                 else read_count rs
                        (take read_bytes child_count_mem @ got
                           @ drop (read_bytes + n) child_count_mem)
                        (read_bytes + n)))
      else Some (Some child_count_mem))"

text \<open>
  Lines 217-263: for each worker in order, wait, then either read the count and add it to
  \<open>total_count\<close> (line 258, after the read loop however it was left) or print the timeout
  message (line 260); then go on with the next worker.
\<close>

definition timeout_msg :: "nat \<Rightarrow> string" where
  "timeout_msg i = line (''Timeout waiting for data on pipe '' @ show_int (int i))"

fun collect :: "world \<Rightarrow> nat list \<Rightarrow> int \<Rightarrow> (event list \<times> int option) option" where
  "collect w [] total_count = Some ([], Some total_count)"
| "collect w (i # is) total_count =
     (case select_loop (selects w i) of
        None \<Rightarrow> None
      | Some SelectFailed \<Rightarrow> Some ([Perror ''select error on pipe''], None)
      | Some FdNotSet \<Rightarrow>
          (case collect w is total_count of
             None \<Rightarrow> None
           | Some (evs, r) \<Rightarrow> Some (Stderr (timeout_msg i) # evs, r))
      | Some FdIsSet \<Rightarrow>
          (case read_count (reads w i) (replicate 8 (CHR 0x00)) 0 of
             None \<Rightarrow> None
           | Some None \<Rightarrow> Some ([Perror ''Error reading from pipe in parent''], None)
           | Some (Some child_count_mem) \<Rightarrow>
               collect w is (wrap_ll (total_count + ll_of_bytes child_count_mem))))"

text \<open>
  Lines 266-268 wait for every worker; lines 272-299 print the total, write the result
  file and return EXIT_SUCCESS.
\<close>

fun reap :: "world \<Rightarrow> nat list \<Rightarrow> event list option" where
  "reap w [] = Some []"
| "reap w (i # is) =
     (if child_exits w i
      then (case reap w is of None \<Rightarrow> None | Some evs \<Rightarrow> Some (Waited i # evs))
      else None)"

fun write_loop :: "int list \<Rightarrow> int \<Rightarrow> int \<Rightarrow> bool option" where
  "write_loop [] result_length total_written =
     (if total_written < result_length then None else Some True)"
| "write_loop (bytes_written # ws) result_length total_written =
     (if total_written < result_length then
        (if bytes_written = - 1 then Some False
         else write_loop ws result_length (total_written + bytes_written))
      else Some True)"

definition count_msg :: "int \<Rightarrow> char \<Rightarrow> string" where
  "count_msg total_count c =
     line (''3/4 -> Character counted successfully: total '' @ show_int total_count
           @ '' occurrences of character '' @ quoted c @ '' :)'')"

definition result_msg :: "char \<Rightarrow> int \<Rightarrow> string \<Rightarrow> string" where
  "result_msg c total_count input_file =
     take 1023 (line (''The character '' @ quoted c @ '' appears '' @ show_int total_count
                      @ '' times in file '' @ input_file @ ''.''))"

definition finish :: "world \<Rightarrow> char \<Rightarrow> string \<Rightarrow> int \<Rightarrow> (event list \<times> int) option" where
  "finish w c input_file total_count =
     (if \<not> open_output w
      then Some ([Stdout (count_msg total_count c), Perror ''open output file error''],
                 EXIT_FAILURE)
      else (case write_loop (output_writes w)
                   (int (length (result_msg c total_count input_file))) 0 of
              None \<Rightarrow> None
            | Some False \<Rightarrow>
                Some ([Stdout (count_msg total_count c), Perror ''Error writing to output file''],
                      EXIT_FAILURE)
            | Some True \<Rightarrow>
                Some ([Stdout (count_msg total_count c),
                       Stdout (line ''4/4 -> Result written successfully :)''),
                       Stdout (line ''All done! :)'')], EXIT_SUCCESS)))"

text \<open>
  The whole of main: each failure path returns EXIT_FAILURE with the events so far.
\<close>

definition prepend :: "event list \<Rightarrow> (event list \<times> int) option \<Rightarrow> (event list \<times> int) option" where
  "prepend evs r = (case r of None \<Rightarrow> None | Some (evs', code) \<Rightarrow> Some (evs @ evs', code))"

definition run_workers :: "world \<Rightarrow> char \<Rightarrow> string \<Rightarrow> int \<Rightarrow> (event list \<times> int) option" where
  "run_workers w c input_file P =
     (case spawn w [0..<nat P] of
        (evs, False) \<Rightarrow> Some (evs, EXIT_FAILURE)
      | (evs, True) \<Rightarrow>
          prepend evs
            (case collect w [0..<nat P] 0 of
               None \<Rightarrow> None
             | Some (evs', None) \<Rightarrow> Some (evs', EXIT_FAILURE)
             | Some (evs', Some total_count) \<Rightarrow>
                 prepend evs'
                   (case reap w [0..<nat P] of
                      None \<Rightarrow> None
                    | Some evs'' \<Rightarrow> prepend evs'' (finish w c input_file total_count))))"

definition run_job :: "world \<Rightarrow> char \<Rightarrow> string \<Rightarrow> (event list \<times> int) option" where
  "run_job w c input_file =
     (case read_P (getenv_P w) of
        None \<Rightarrow> None
      | Some (evs, None) \<Rightarrow> Some (evs, EXIT_FAILURE)
      | Some (evs, Some P) \<Rightarrow>
          prepend (evs @ [Stdout (line (''Using '' @ show_int P
                                        @ '' child processes for searching.''))])
            (if \<not> sigaction_int w then Some ([Perror ''sigaction SIGINT error''], EXIT_FAILURE)
             else if \<not> sigaction_chld w
               then Some ([Perror ''sigaction SIGCHLD error''], EXIT_FAILURE)
             else if \<not> malloc_pipes w then Some ([Perror ''malloc error for pipes''], EXIT_FAILURE)
             else prepend [ActiveChildren P]
                    (if \<not> malloc_pids w
                     then Some ([Perror ''malloc error for child_pids''], EXIT_FAILURE)
                     else run_workers w c input_file P)))"

definition usage :: "string list \<Rightarrow> string" where
  "usage args =
     line (''Usage: '' @ (case args of [] \<Rightarrow> ''(null)'' | program_name # _ \<Rightarrow> program_name)
           @ '' <input_file> <output_file> <character_to_read>'')"

definition main :: "world \<Rightarrow> (event list \<times> int) option" where
  "main w =
     (if length (argv w) \<noteq> 4 then Some ([Stderr (usage (argv w))], EXIT_FAILURE)
      else if length (argv w ! 3) \<noteq> 1
        then Some ([Stderr (line ''Error: character to read must be a single character'')],
                   EXIT_FAILURE)
      else if \<not> open_input w then Some ([Perror ''open error''], EXIT_FAILURE)
      else prepend [Stdout (line ''1/4 -> File opened successfully :)'')]
        (case fstat_input w of
           None \<Rightarrow> Some ([Perror ''Error retrieving file stats''], EXIT_FAILURE)
         | Some st_size \<Rightarrow>
             if st_size = 0 then Some ([Stderr (line ''Error: file is empty'')], EXIT_FAILURE)
             else if \<not> malloc_buf w then Some ([Perror ''malloc error''], EXIT_FAILURE)
             else (case read_input (input_reads w) st_size [] of
                     None \<Rightarrow> None
                   | Some None \<Rightarrow> Some ([Perror ''read error''], EXIT_FAILURE)
                   | Some (Some buf) \<Rightarrow>
                       prepend [Stdout (line ''2/4 -> File read successfully :)'')]
                         (run_job w (hd (argv w ! 3)) (argv w ! 1)))))"

section \<open>The signal handlers (third.c, lines 26-48)\<close>

text \<open>
  \<open>sigint_handler\<close> takes the value of \<open>time(NULL)\<close>, the value of \<open>active_children\<close>
  and its static \<open>last_print\<close> (initially 0), and returns the new \<open>last_print\<close> and the
  line it wrote, if any. \<open>sigint_run\<close> delivers a sequence of signals.
  \<open>sigchld_handler\<close> takes the return values of its calls of
  \<open>waitpid(-1, NULL, WNOHANG)\<close> and the value of \<open>active_children\<close>; it returns the new
  value when a call returns 0 or less, and has not returned (\<open>None\<close>) while every answer is
  the pid of a reaped child. \<open>sigchld_run\<close> delivers a sequence of signals and lists the
  values of the counter after each.
\<close>

definition sigint_msg :: "int \<Rightarrow> string" where
  "sigint_msg active_children =
     CHR 0x0A # line (''Received SIGINT. Active child processes: '' @ show_int active_children)"

definition sigint_handler :: "int \<Rightarrow> int \<Rightarrow> int \<Rightarrow> int \<times> string option" where
  "sigint_handler now active_children last_print =
     (if now - last_print < 1 then (last_print, None)
      else (now, Some (sigint_msg active_children)))"

fun sigint_run :: "(int \<times> int) list \<Rightarrow> int \<Rightarrow> string option list \<times> int" where
  "sigint_run [] last_print = ([], last_print)"
| "sigint_run ((now, active_children) # ts) last_print =
     (case sigint_handler now active_children last_print of
        (last_print', out) \<Rightarrow>
          (case sigint_run ts last_print' of (outs, lp) \<Rightarrow> (out # outs, lp)))"

fun sigchld_handler :: "int list \<Rightarrow> int \<Rightarrow> int option" where
  "sigchld_handler [] active_children = None"
| "sigchld_handler (pid # answers) active_children =
     (if pid > 0 then sigchld_handler answers (active_children - 1) else Some active_children)"

fun sigchld_run :: "int list list \<Rightarrow> int \<Rightarrow> int list option" where
  "sigchld_run [] active_children = Some []"
| "sigchld_run (answers # rest) active_children =
     (case sigchld_handler answers active_children of
        None \<Rightarrow> None
      | Some n \<Rightarrow> (case sigchld_run rest n of None \<Rightarrow> None | Some ns \<Rightarrow> Some (n # ns)))"

text \<open>
  \<open>time_NULL\<close> is the value of \<open>time(NULL)\<close> at an instant given in milliseconds since
  the epoch: the whole seconds elapsed.
\<close>

definition time_NULL :: "int \<Rightarrow> int" where
  "time_NULL ms = ms div 1000"

section \<open>Workers ending while main runs\<close>

text \<open>
  The parent while its workers end: the value of \<open>active_children\<close>, the pids of the
  workers still running and the pids of the workers that have ended and are not yet reaped.
  A worker ends; or SIGCHLD is delivered and the handler runs, its calls of
  \<open>waitpid(-1, NULL, WNOHANG)\<close> returning the pids of the ended workers one by one and then
  0 (workers are left) or -1 (none is left); or \<open>waitpid(child_pids[i], NULL, 0)\<close> of main
  (third.c, lines 266-268) returns, with that worker reaped when it had ended and with -1
  when it was reaped before. That call does not return while the worker runs: \<open>None\<close>.
\<close>

datatype sys_event = WorkerExits int | SigchldDelivered | MainWaitpid int

definition waitpid_answers :: "int list \<Rightarrow> int list \<Rightarrow> int list" where
  "waitpid_answers running zombies = zombies @ [if running = [] then - 1 else 0]"

fun sys_step :: "sys_event \<Rightarrow> int \<times> int list \<times> int list \<Rightarrow> (int \<times> int list \<times> int list) option" where
  "sys_step (WorkerExits pid) (ac, running, zombies) =
     (if pid \<in> set running then Some (ac, remove1 pid running, zombies @ [pid]) else None)"
| "sys_step SigchldDelivered (ac, running, zombies) =
     (case sigchld_handler (waitpid_answers running zombies) ac of
        None \<Rightarrow> None
      | Some n \<Rightarrow> Some (n, running, dropWhile (\<lambda>pid. 0 < pid) zombies))"
| "sys_step (MainWaitpid pid) (ac, running, zombies) =
     (if pid \<in> set running then None else Some (ac, running, remove1 pid zombies))"

fun sys_run :: "sys_event list \<Rightarrow> int \<times> int list \<times> int list \<Rightarrow> (int \<times> int list \<times> int list) option" where
  "sys_run [] s = Some s"
| "sys_run (e # es) s = (case sys_step e s of None \<Rightarrow> None | Some s' \<Rightarrow> sys_run es s')"

section \<open>Concrete runs\<close>

text \<open>
  A run on the 8 bytes \<open>aabcaabc\<close> with target \<open>a\<close> and \<open>P=2\<close> in which every call
  succeeds and both workers deliver the count 2; the same run with a timeout on channel 0,
  with channel 0 closed before any data, with channel 0 closed after 3 of the 8 bytes, with
  an empty file, and with \<open>P=2abc\<close>.
\<close>

definition demo_world :: world where
  "demo_world =
     \<lparr> argv = [''./third'', ''in.txt'', ''out.txt'', ''a''],
       open_input = True,
       fstat_input = Some 8,
       malloc_buf = True,
       input_reads = [ReadBytes ''aabcaabc''],
       getenv_P = Some ''2'',
       sigaction_int = True,
       sigaction_chld = True,
       malloc_pipes = True,
       malloc_pids = True,
       pipe_ok = (\<lambda>i. True),
       fork_ok = (\<lambda>i. True),
       selects = (\<lambda>i. [SelectReady]),
       reads = (\<lambda>i. [ReadBytes (bytes_of_ll 2)]),
       child_exits = (\<lambda>i. True),
       open_output = True,
       output_writes = [50] \<rparr>"

definition timeout_world :: world where
  "timeout_world = demo_world \<lparr> selects := (\<lambda>i. if i = 0 then [SelectTimeout] else [SelectReady]) \<rparr>"

definition eof_world :: world where
  "eof_world = demo_world \<lparr> reads := (\<lambda>i. if i = 0 then [ReadBytes []] else [ReadBytes (bytes_of_ll 2)]) \<rparr>"

definition partial_world :: world where
  "partial_world =
     demo_world \<lparr> reads := (\<lambda>i. if i = 0 then [ReadBytes [CHR 0x05, CHR 0x00, CHR 0x00], ReadBytes []]
                                  else [ReadBytes (bytes_of_ll 2)]) \<rparr>"

definition empty_world :: world where
  "empty_world = demo_world \<lparr> fstat_input := Some 0, input_reads := [] \<rparr>"

definition trailing_text_world :: world where
  "trailing_text_world = demo_world \<lparr> getenv_P := Some ''2abc'' \<rparr>"

section \<open>Notions used to state the properties\<close>

text \<open>The bytes of the buffer that lie in segment \<open>i\<close> of \<open>P\<close>.\<close>

definition slice :: "string \<Rightarrow> int \<Rightarrow> int \<Rightarrow> string" where
  "slice buf P i =
     take (nat (segment_size (int (length buf)) P i)) (drop (nat (seg_start (int (length buf)) P i)) buf)"

text \<open>Channel \<open>i\<close> becomes readable and the coordinator's read loop ends with \<open>payload\<close>
  in the memory of \<open>child_count\<close>.\<close>

definition delivers :: "world \<Rightarrow> nat \<Rightarrow> string \<Rightarrow> bool" where
  "delivers w i payload \<longleftrightarrow>
     select_loop (selects w i) = Some FdIsSet
     \<and> read_count (reads w i) (replicate 8 (CHR 0x00)) 0 = Some (Some payload)"

text \<open>The bytes a script of read answers hands over, and the answers a read loop retries
  after: an interrupted call and a read of at least one byte.\<close>

fun script_data :: "read_result list \<Rightarrow> string" where
  "script_data [] = []"
| "script_data (ReadBytes d # rs) = d @ script_data rs"
| "script_data (ReadError e # rs) = script_data rs"

fun retried :: "read_result \<Rightarrow> bool" where
  "retried (ReadBytes d) = (d \<noteq> [])"
| "retried (ReadError e) = (e = EINTR)"

text \<open>The channels whose wait ended in a timeout.\<close>

definition timed_out :: "world \<Rightarrow> nat \<Rightarrow> bool" where
  "timed_out w i \<longleftrightarrow> select_loop (selects w i) = Some FdNotSet"

text \<open>Events that create a channel or a worker, and the event that sets the counter.\<close>

fun is_spawn :: "event \<Rightarrow> bool" where
  "is_spawn (PipeCreated i) = True"
| "is_spawn (Forked i) = True"
| "is_spawn e = False"

fun is_counter_init :: "event \<Rightarrow> bool" where
  "is_counter_init (ActiveChildren n) = True"
| "is_counter_init e = False"

text \<open>A text that is a positive integer: decimal digits only, at least one, not all zero.\<close>

definition positive_integer :: "string \<Rightarrow> bool" where
  "positive_integer s \<longleftrightarrow> s \<noteq> [] \<and> list_all isdigit s \<and> 0 < digits_val s 0"

text \<open>The triggers of a run of the SIGINT handler that printed a line.\<close>

definition print_times :: "(int \<times> int) list \<Rightarrow> string option list \<Rightarrow> int list" where
  "print_times ts outs = map (fst \<circ> fst) (filter (\<lambda>(t, out). out \<noteq> None) (zip ts outs))"



section \<open>Properties of the partition\<close>

lemma tdiv_nonneg: "0 \<le> a \<Longrightarrow> 0 < b \<Longrightarrow> tdiv a b = a div b"
  by (cases "a = 0") (simp_all add: tdiv_def)

lemma tmod_nonneg: "0 \<le> a \<Longrightarrow> 0 < b \<Longrightarrow> tmod a b = a mod b"
  by (simp add: tmod_def tdiv_nonneg minus_mult_div_eq_mod)

lemma base_size_nonneg: "0 \<le> n \<Longrightarrow> 1 \<le> P \<Longrightarrow> 0 \<le> base_size n P"
  by (simp add: base_size_def tdiv_nonneg pos_imp_zdiv_nonneg_iff)

lemma remainder_range: "0 \<le> n \<Longrightarrow> 1 \<le> P \<Longrightarrow> 0 \<le> remainder n P \<and> remainder n P < P"
  by (simp add: remainder_def tmod_nonneg)

lemma base_remainder: "0 \<le> n \<Longrightarrow> 1 \<le> P \<Longrightarrow> P * base_size n P + remainder n P = n"
  by (simp add: base_size_def remainder_def tdiv_nonneg tmod_nonneg)

lemma seg_start_0: "0 \<le> n \<Longrightarrow> 1 \<le> P \<Longrightarrow> seg_start n P 0 = 0"
  using remainder_range [of n P] by (simp add: seg_start_def)

lemma seg_end_next: "seg_end n P i = seg_start n P (i + 1)"
  by (simp add: seg_end_def seg_start_def segment_size_def algebra_simps)

lemma seg_start_P: "0 \<le> n \<Longrightarrow> 1 \<le> P \<Longrightarrow> seg_start n P P = n"
  using remainder_range [of n P] base_remainder [of n P] by (simp add: seg_start_def)

lemma segment_size_nonneg: "0 \<le> n \<Longrightarrow> 1 \<le> P \<Longrightarrow> 0 \<le> segment_size n P i"
  using base_size_nonneg [of n P] by (simp add: segment_size_def)

lemma seg_start_mono_step: "0 \<le> n \<Longrightarrow> 1 \<le> P \<Longrightarrow> seg_start n P i \<le> seg_start n P (i + 1)"
  using segment_size_nonneg [of n P i] seg_end_next [of n P i] by (simp add: seg_end_def)

lemma seg_start_mono_nat:
  "0 \<le> n \<Longrightarrow> 1 \<le> P \<Longrightarrow> seg_start n P i \<le> seg_start n P (i + int k)"
proof (induction k)
  case 0
  then show ?case by simp
next
  case (Suc k)
  have "seg_start n P (i + int k) \<le> seg_start n P (i + int k + 1)"
    using Suc.prems by (rule seg_start_mono_step)
  moreover have nxt: "i + int (Suc k) = i + int k + 1" by simp
  moreover have "seg_start n P i \<le> seg_start n P (i + int k)" using Suc by simp
  ultimately show ?case unfolding nxt by (rule_tac order_trans)
qed

lemma seg_start_mono: "0 \<le> n \<Longrightarrow> 1 \<le> P \<Longrightarrow> i \<le> j \<Longrightarrow> seg_start n P i \<le> seg_start n P j"
  using seg_start_mono_nat [of n P i "nat (j - i)"] by simp

lemma seg_cover_prefix:
  "0 \<le> n \<Longrightarrow> 1 \<le> P \<Longrightarrow>
   (\<Union>i\<in>{0..<int k}. {seg_start n P i..<seg_end n P i}) = {0..<seg_start n P (int k)}"
proof (induction k)
  case 0
  then show ?case by (simp add: seg_start_0)
next
  case (Suc k)
  have split: "{0..<int (Suc k)} = insert (int k) {0..<int k}" by auto
  have lo: "0 \<le> seg_start n P (int k)"
    using seg_start_mono [of n P 0 "int k"] seg_start_0 [of n P] Suc.prems by simp
  have up: "seg_start n P (int k) \<le> seg_start n P (int k + 1)"
    using Suc.prems by (rule seg_start_mono_step)
  have nxt: "int (Suc k) = int k + 1" by simp
  have "(\<Union>i\<in>{0..<int (Suc k)}. {seg_start n P i..<seg_end n P i})
        = {seg_start n P (int k)..<seg_end n P (int k)}
          \<union> (\<Union>i\<in>{0..<int k}. {seg_start n P i..<seg_end n P i})"
    unfolding split by (rule UN_insert)
  also have "\<dots> = {seg_start n P (int k)..<seg_start n P (int k + 1)} \<union> {0..<seg_start n P (int k)}"
    using Suc by (simp only: seg_end_next)
  also have "\<dots> = {0..<seg_start n P (int k + 1)}"
    using lo up by auto
  finally show ?case unfolding nxt .
qed

text \<open>
  Claim C2. For every \<open>total_length \<ge> 0\<close> and every \<open>P \<ge> 1\<close> the \<open>P\<close> segments of
  the partition rule start at 0, end at \<open>total_length\<close>, each ends where the next starts
  (so they are ordered, pairwise disjoint and cover exactly \<open>[0, total_length)\<close>), any two
  lengths differ by at most 1, and exactly the first \<open>total_length mod P\<close> segments have
  \<open>total_length div P + 1\<close> elements, the others \<open>total_length div P\<close>.
\<close>

theorem partition_segments:
  assumes "0 \<le> n" and "1 \<le> P"
  shows "base_size n P = n div P \<and> remainder n P = n mod P
       \<and> seg_start n P 0 = 0 \<and> seg_end n P (P - 1) = n
       \<and> (\<forall>i. 0 \<le> i \<and> i < P \<longrightarrow> seg_start n P i \<le> seg_end n P i \<and> seg_end n P i = seg_start n P (i + 1))
       \<and> (\<forall>i j. 0 \<le> i \<and> i < j \<and> j < P \<longrightarrow>
             seg_end n P i \<le> seg_start n P j
           \<and> {seg_start n P i..<seg_end n P i} \<inter> {seg_start n P j..<seg_end n P j} = {})
       \<and> (\<Union>i\<in>{0..<P}. {seg_start n P i..<seg_end n P i}) = {0..<n}
       \<and> (\<forall>i j. 0 \<le> i \<and> i < P \<and> 0 \<le> j \<and> j < P \<longrightarrow>
             \<bar>segment_size n P i - segment_size n P j\<bar> \<le> 1)
       \<and> (\<forall>i. 0 \<le> i \<and> i < P \<longrightarrow>
             segment_size n P i = (if i < n mod P then n div P + 1 else n div P))"
proof -
  have z: "base_size n P = n div P \<and> remainder n P = n mod P"
    using assms by (simp add: base_size_def remainder_def tdiv_nonneg tmod_nonneg)
  have a: "seg_start n P 0 = 0" using assms by (rule seg_start_0)
  have b: "seg_end n P (P - 1) = n" using assms by (simp add: seg_end_next seg_start_P)
  have c: "\<forall>i. 0 \<le> i \<and> i < P \<longrightarrow> seg_start n P i \<le> seg_end n P i \<and> seg_end n P i = seg_start n P (i + 1)"
    using assms seg_start_mono_step [of n P] by (simp add: seg_end_next)
  have d1: "seg_end n P i \<le> seg_start n P j" if "i < j" for i j
    using seg_start_mono [of n P "i + 1" j] assms that by (simp add: seg_end_next)
  have d: "\<forall>i j. 0 \<le> i \<and> i < j \<and> j < P \<longrightarrow>
             seg_end n P i \<le> seg_start n P j
           \<and> {seg_start n P i..<seg_end n P i} \<inter> {seg_start n P j..<seg_end n P j} = {}"
    using d1 by fastforce
  have e: "(\<Union>i\<in>{0..<P}. {seg_start n P i..<seg_end n P i}) = {0..<n}"
    using seg_cover_prefix [of n P "nat P"] assms by (simp add: seg_start_P)
  have f: "\<forall>i j. 0 \<le> i \<and> i < P \<and> 0 \<le> j \<and> j < P \<longrightarrow> \<bar>segment_size n P i - segment_size n P j\<bar> \<le> 1"
    by (simp add: segment_size_def)
  have g: "\<forall>i. 0 \<le> i \<and> i < P \<longrightarrow> segment_size n P i = (if i < n mod P then n div P + 1 else n div P)"
    using assms by (simp add: segment_size_def base_size_def remainder_def tdiv_nonneg tmod_nonneg)
  from z a b c d e f g show ?thesis by blast
qed

theorem partition_segments_witness:
  "seg_start 3 5 0 = 0 \<and> seg_end 3 5 4 = 3 \<and> map (segment_size 3 5) [0,1,2,3,4] = [1,1,1,0,0]
   \<and> map (seg_start 3 5) [0,1,2,3,4] = [0,1,2,3,3]"
  using partition_segments [of 3 5]
  by (simp add: seg_start_def seg_end_def segment_size_def base_size_def remainder_def tdiv_def tmod_def)



section \<open>Properties of the scans\<close>

lemma wrap_ll_id: "- (2 ^ 63) \<le> x \<Longrightarrow> x < 2 ^ 63 \<Longrightarrow> wrap_ll x = x"
  by (simp add: wrap_ll_def)

lemma scan_exact:
  "0 \<le> j \<Longrightarrow> j \<le> e \<Longrightarrow> e \<le> int (length buf) \<Longrightarrow> 0 \<le> count \<Longrightarrow> count + (e - j) \<le> LLONG_MAX \<Longrightarrow>
   scan buf c j e count
     = Some (count + int (count_list (take (nat (e - j)) (drop (nat j) buf)) c))"
proof (induction buf c j e count rule: scan.induct)
  case (1 buf c j e count)
  show ?case
  proof (cases "j < e")
    case False
    with "1.prems" show ?thesis by (simp add: scan.simps)
  next
    case True
    let ?count' = "if buf ! nat j = c then wrap_ll (count + 1) else count"
    have inb: "0 \<le> j \<and> j < int (length buf)" using True "1.prems" by simp
    have w: "wrap_ll (count + 1) = count + 1"
      using True "1.prems" by (intro wrap_ll_id) (simp_all add: LLONG_MAX_def)
    have c': "?count' = count + (if buf ! nat j = c then 1 else 0)" using w by simp
    have ih: "scan buf c (j + 1) e ?count'
        = Some (?count' + int (count_list (take (nat (e - (j + 1))) (drop (nat (j + 1)) buf)) c))"
      using True inb "1.prems" c' by (intro "1.IH") auto
    have nj: "nat j < length buf" using inb by linarith
    have sl: "take (nat (e - j)) (drop (nat j) buf)
        = buf ! nat j # take (nat (e - (j + 1))) (drop (nat (j + 1)) buf)"
    proof -
      have "nat (e - j) = Suc (nat (e - (j + 1)))" using True by simp
      moreover have "drop (nat j) buf = buf ! nat j # drop (nat (j + 1)) buf"
        using nj inb by (simp add: Cons_nth_drop_Suc nat_add_distrib)
      ultimately show ?thesis by simp
    qed
    have "scan buf c j e count = scan buf c (j + 1) e ?count'"
      using True inb by (subst scan.simps) simp
    also note ih
    finally show ?thesis unfolding sl c' by auto
  qed
qed

lemma count_char_loop_exact:
  "0 \<le> i \<Longrightarrow> i \<le> n \<Longrightarrow> n \<le> int (length buf) \<Longrightarrow> n \<le> INT_MAX \<Longrightarrow> 0 \<le> count \<Longrightarrow>
   count + (n - i) \<le> LLONG_MAX \<Longrightarrow>
   count_char_loop buf c n i count
     = Some (count + int (count_list (take (nat (n - i)) (drop (nat i) buf)) c))"
proof (induction buf c n i count rule: count_char_loop.induct)
  case (1 buf c n i count)
  show ?case
  proof (cases "i < n")
    case False
    with "1.prems" show ?thesis by (simp add: count_char_loop.simps)
  next
    case True
    let ?count' = "if buf ! nat i = c then wrap_ll (count + 1) else count"
    have inb: "0 \<le> i \<and> i < int (length buf) \<and> i < INT_MAX" using True "1.prems" by simp
    have w: "wrap_ll (count + 1) = count + 1"
      using True "1.prems" by (intro wrap_ll_id) (simp_all add: LLONG_MAX_def)
    have c': "?count' = count + (if buf ! nat i = c then 1 else 0)" using w by simp
    have ih: "count_char_loop buf c n (i + 1) ?count'
        = Some (?count' + int (count_list (take (nat (n - (i + 1))) (drop (nat (i + 1)) buf)) c))"
      using True inb "1.prems" c' by (intro "1.IH") auto
    have ni: "nat i < length buf" using inb by linarith
    have sl: "take (nat (n - i)) (drop (nat i) buf)
        = buf ! nat i # take (nat (n - (i + 1))) (drop (nat (i + 1)) buf)"
    proof -
      have "nat (n - i) = Suc (nat (n - (i + 1)))" using True by simp
      moreover have "drop (nat i) buf = buf ! nat i # drop (nat (i + 1)) buf"
        using ni inb by (simp add: Cons_nth_drop_Suc nat_add_distrib)
      ultimately show ?thesis by simp
    qed
    have "count_char_loop buf c n i count = count_char_loop buf c n (i + 1) ?count'"
      using True inb by (subst count_char_loop.simps) simp
    also note ih
    finally show ?thesis unfolding sl c' by auto
  qed
qed

lemma count_list_app: "count_list (xs @ ys) c = count_list xs c + count_list ys c"
  by (induction xs) auto

lemma count_list_le_length: "count_list xs c \<le> length xs"
  by (induction xs) auto

lemma seg_start_nonneg: "0 \<le> n \<Longrightarrow> 1 \<le> P \<Longrightarrow> 0 \<le> i \<Longrightarrow> 0 \<le> seg_start n P i"
  using seg_start_mono [of n P 0 i] seg_start_0 [of n P] by simp

lemma seg_end_le: "0 \<le> n \<Longrightarrow> 1 \<le> P \<Longrightarrow> i < P \<Longrightarrow> seg_end n P i \<le> n"
  using seg_start_mono [of n P "i + 1" P] seg_start_P [of n P] by (simp add: seg_end_next)

lemma child_count_exact:
  assumes "1 \<le> P" and "int (length buf) \<le> LLONG_MAX" and "0 \<le> i" and "i < P"
  shows "child_count buf c (int (length buf)) P i = Some (int (count_list (slice buf P i) c))"
proof -
  let ?n = "int (length buf)"
  have n0: "0 \<le> ?n" by simp
  have s0: "0 \<le> seg_start ?n P i" using n0 assms by (intro seg_start_nonneg) auto
  have sz: "0 \<le> segment_size ?n P i" using n0 assms(1) by (rule segment_size_nonneg)
  have en: "seg_start ?n P i + segment_size ?n P i \<le> ?n"
    using seg_end_le [of ?n P i] assms by (simp add: seg_end_def)
  have "scan buf c (seg_start ?n P i) (seg_start ?n P i + segment_size ?n P i) 0
      = Some (0 + int (count_list (take (nat (seg_start ?n P i + segment_size ?n P i - seg_start ?n P i))
                 (drop (nat (seg_start ?n P i)) buf)) c))"
    using s0 sz en assms(2) by (intro scan_exact) auto
  then show ?thesis by (simp add: child_count_def slice_def Let_def)
qed

lemma prefix_counts:
  assumes "1 \<le> P"
  shows "int k \<le> P \<Longrightarrow>
    (\<Sum>i\<leftarrow>[0..<k]. int (count_list (slice buf P (int i)) c))
      = int (count_list (take (nat (seg_start (int (length buf)) P (int k))) buf) c)"
proof (induction k)
  case 0
  then show ?case using assms by (simp add: seg_start_0)
next
  case (Suc k)
  let ?n = "int (length buf)"
  have s0: "0 \<le> seg_start ?n P (int k)" using assms by (intro seg_start_nonneg) auto
  have sz: "0 \<le> segment_size ?n P (int k)" using assms by (intro segment_size_nonneg) auto
  have "seg_start ?n P (int (Suc k)) = seg_start ?n P (int k) + segment_size ?n P (int k)"
    using seg_end_next [of ?n P "int k"] by (simp add: seg_end_def add.commute)
  then have "nat (seg_start ?n P (int (Suc k)))
      = nat (seg_start ?n P (int k)) + nat (segment_size ?n P (int k))"
    using s0 sz by (simp add: nat_add_distrib)
  then have "take (nat (seg_start ?n P (int (Suc k)))) buf
      = take (nat (seg_start ?n P (int k))) buf @ slice buf P (int k)"
    by (simp add: take_add slice_def)
  then show ?case using Suc by (simp add: count_list_app)
qed

lemma total_counts:
  assumes "1 \<le> P"
  shows "(\<Sum>i\<leftarrow>[0..<nat P]. int (count_list (slice buf P (int i)) c)) = int (count_list buf c)"
  using prefix_counts [OF assms, of "nat P" buf c] assms by (simp add: seg_start_P)



lemma segment_counts_exact:
  assumes "1 \<le> P" and "int (length buf) \<le> LLONG_MAX"
  shows "map (\<lambda>i. child_count buf c (int (length buf)) P (int i)) [0..<nat P]
       = map Some (map (\<lambda>i. int (count_list (slice buf P (int i)) c)) [0..<nat P])"
  using assms by (simp add: child_count_exact)

lemma whole_scan_exact:
  assumes "int (length buf) \<le> LLONG_MAX"
  shows "scan buf c 0 (int (length buf)) 0 = Some (int (count_list buf c))"
  using scan_exact [of 0 "int (length buf)" buf 0 c] assms by simp

lemma single_child_exact:
  assumes "int (length buf) \<le> LLONG_MAX"
  shows "child_count buf c (int (length buf)) 1 0 = Some (int (count_list buf c))"
proof -
  have "base_size (int (length buf)) 1 = int (length buf)" and "remainder (int (length buf)) 1 = 0"
    by (simp_all add: base_size_def remainder_def tdiv_nonneg tmod_nonneg)
  then show ?thesis
    using whole_scan_exact [OF assms, of c]
    by (simp add: child_count_def seg_start_def segment_size_def)
qed

lemma count_char_exact:
  assumes "int (length buf) \<le> INT_MAX"
  shows "count_char buf c = Some (int (count_list buf c))"
  using count_char_loop_exact [of 0 "int (length buf)" buf 0 c] assms
  by (simp add: count_char_def INT_MAX_def LLONG_MAX_def)

text \<open>
  Claim C1. For every buffer (of a length an \<open>off_t\<close> can hold), every target byte and every
  worker count \<open>P \<ge> 1\<close>, every worker's scan of its segment returns, and the sum of the
  \<open>P\<close> per-segment counts is the number of occurrences in the buffer: it equals the count of
  one pass of the worker's scan over the whole buffer, the count of the single worker when
  \<open>P = 1\<close>, and the count of the loop of count_char.c wherever that loop's \<open>int\<close> index can
  reach the end of the buffer.
\<close>

theorem segment_counts_sum:
  assumes "1 \<le> P" and "int (length buf) \<le> LLONG_MAX"
  shows "\<exists>counts.
           map (\<lambda>i. child_count buf c (int (length buf)) P (int i)) [0..<nat P] = map Some counts
         \<and> sum_list counts = int (count_list buf c)
         \<and> scan buf c 0 (int (length buf)) 0 = Some (sum_list counts)
         \<and> child_count buf c (int (length buf)) 1 0 = Some (sum_list counts)
         \<and> (int (length buf) \<le> INT_MAX \<longrightarrow> count_char buf c = Some (sum_list counts))"
proof -
  let ?counts = "map (\<lambda>i. int (count_list (slice buf P (int i)) c)) [0..<nat P]"
  have tot: "sum_list ?counts = int (count_list buf c)"
    using total_counts [OF assms(1), of buf c] by (simp add: comp_def)
  have "map (\<lambda>i. child_count buf c (int (length buf)) P (int i)) [0..<nat P] = map Some ?counts"
    using assms by (rule segment_counts_exact)
  moreover have "scan buf c 0 (int (length buf)) 0 = Some (sum_list ?counts)"
    unfolding tot using assms(2) by (rule whole_scan_exact)
  moreover have "child_count buf c (int (length buf)) 1 0 = Some (sum_list ?counts)"
    unfolding tot using assms(2) by (rule single_child_exact)
  moreover have "int (length buf) \<le> INT_MAX \<longrightarrow> count_char buf c = Some (sum_list ?counts)"
    unfolding tot by (simp add: count_char_exact)
  ultimately show ?thesis using tot by blast
qed

lemma demo_child_counts:
  "map (\<lambda>i. child_count ''aabcaabc'' CHR ''a'' (int (length ''aabcaabc'')) 2 (int i)) [0..<nat 2]
     = [Some 2, Some 2]"
  by (simp add: child_count_def seg_start_def segment_size_def base_size_def remainder_def
      tdiv_def tmod_def scan.simps wrap_ll_def upt_rec)

lemma count_char_loop_index_overflow:
  "0 \<le> i \<Longrightarrow> i \<le> INT_MAX \<Longrightarrow> INT_MAX < n \<Longrightarrow> count_char_loop buf c n i count = None"
proof (induction buf c n i count rule: count_char_loop.induct)
  case (1 buf c n i count)
  show ?case
  proof (cases "0 \<le> i \<and> i < int (length buf) \<and> i < INT_MAX")
    case True
    then have "count_char_loop buf c n (i + 1)
        (if buf ! nat i = c then wrap_ll (count + 1) else count) = None"
      using "1.prems" by (intro "1.IH") simp_all
    then show ?thesis using True "1.prems" by (subst count_char_loop.simps) simp
  next
    case False
    then show ?thesis using "1.prems" by (subst count_char_loop.simps) auto
  qed
qed

lemma count_char_index_overflow:
  "INT_MAX < int (length buf) \<Longrightarrow> count_char buf c = None"
  using count_char_loop_index_overflow [of 0 "int (length buf)" buf c 0]
  by (simp add: count_char_def INT_MAX_def)

theorem segment_counts_sum_witness:
  "map (\<lambda>i. child_count ''aabcaabc'' CHR ''a'' (int (length ''aabcaabc'')) 2 (int i)) [0..<nat 2]
     = map Some [2, 2]
   \<and> sum_list [2, 2] = int (count_list ''aabcaabc'' CHR ''a'')
   \<and> scan ''aabcaabc'' CHR ''a'' 0 (int (length ''aabcaabc'')) 0 = Some (sum_list [2, 2])
   \<and> child_count ''aabcaabc'' CHR ''a'' (int (length ''aabcaabc'')) 1 0 = Some (sum_list [2, 2])
   \<and> count_char ''aabcaabc'' CHR ''a'' = Some (sum_list [2, 2])"
proof -
  have h1: "(1::int) \<le> 2" by simp
  have h2: "int (length ''aabcaabc'') \<le> LLONG_MAX" by (simp add: LLONG_MAX_def)
  have h3: "int (length ''aabcaabc'') \<le> INT_MAX" by (simp add: INT_MAX_def)
  obtain counts where
    c: "map (\<lambda>i. child_count ''aabcaabc'' CHR ''a'' (int (length ''aabcaabc'')) 2 (int i)) [0..<nat 2]
          = map Some counts"
    and r: "sum_list counts = int (count_list ''aabcaabc'' CHR ''a'')"
       "scan ''aabcaabc'' CHR ''a'' 0 (int (length ''aabcaabc'')) 0 = Some (sum_list counts)"
       "child_count ''aabcaabc'' CHR ''a'' (int (length ''aabcaabc'')) 1 0 = Some (sum_list counts)"
       "int (length ''aabcaabc'') \<le> INT_MAX \<longrightarrow> count_char ''aabcaabc'' CHR ''a'' = Some (sum_list counts)"
    using segment_counts_sum [OF h1 h2, of "CHR ''a''"] by blast
  have "map Some counts = map Some [2, 2]" using c demo_child_counts by simp
  then have "counts = [2, 2]" by (simp add: map_eq_Cons_conv)
  then show ?thesis using c r h3 by simp
qed

subsection \<open>The count on the channel\<close>

lemma foldr_bytes:
  "0 \<le> v \<Longrightarrow>
   foldr (\<lambda>b acc. of_char b + 256 * acc) (map (\<lambda>k. char_of (v div 256 ^ k)) [i..<i + m]) (0::int)
     = (v div 256 ^ i) mod 256 ^ m"
proof (induction m arbitrary: i)
  case 0
  then show ?case by simp
next
  case (Suc m)
  have up: "[i..<i + Suc m] = i # [Suc i..<Suc i + m]" by (simp add: upt_rec)
  have "v div (256 ^ i * 256) = v div 256 ^ i div 256"
    by (rule zdiv_zmult2_eq) simp
  then have d: "v div 256 ^ Suc i = v div 256 ^ i div 256"
    by (simp only: power_Suc2)
  have "(v div 256 ^ i) mod 256 ^ Suc m
      = 256 * ((v div 256 ^ i) div 256 mod 256 ^ m) + (v div 256 ^ i) mod 256"
    by (simp add: zmod_zmult2_eq)
  then show ?case
    unfolding up using Suc.IH [of "Suc i"] Suc.prems d by (simp add: of_char_of del: power_Suc)
qed

lemma ll_roundtrip: "0 \<le> v \<Longrightarrow> v \<le> LLONG_MAX \<Longrightarrow> ll_of_bytes (bytes_of_ll v) = v"
  using foldr_bytes [of v 0 8] by (simp add: ll_of_bytes_def bytes_of_ll_def wrap_ll_def LLONG_MAX_def)

lemma collect_delivered:
  "list_all2 (\<lambda>i k. delivers w i (bytes_of_ll k)) is ks \<Longrightarrow> \<forall>k\<in>set ks. 0 \<le> k \<Longrightarrow>
   0 \<le> tc \<Longrightarrow> tc + sum_list ks \<le> LLONG_MAX \<Longrightarrow>
   collect w is tc = Some ([], Some (tc + sum_list ks))"
proof (induction arbitrary: tc rule: list_all2_induct)
  case Nil
  then show ?case by simp
next
  case (Cons i "is" k ks)
  have k0: "0 \<le> k" and ks0: "\<forall>k\<in>set ks. 0 \<le> k" using Cons.prems by simp_all
  have s0: "0 \<le> sum_list ks" using ks0 by (simp add: sum_list_nonneg)
  have kmax: "k \<le> LLONG_MAX" using Cons.prems s0 by simp
  have rt: "ll_of_bytes (bytes_of_ll k) = k" using k0 kmax by (rule ll_roundtrip)
  have w: "wrap_ll (tc + k) = tc + k"
    using Cons.prems s0 k0 by (intro wrap_ll_id) (simp_all add: LLONG_MAX_def)
  have "collect w (i # is) tc = collect w is (tc + k)"
    using Cons.hyps(1) rt w by (simp add: delivers_def)
  also have "\<dots> = Some ([], Some (tc + k + sum_list ks))"
    using Cons.prems k0 ks0 by (intro Cons.IH) simp_all
  finally show ?case by (simp add: add.assoc)
qed



lemma slice_length:
  assumes "1 \<le> P"
  shows "int (length (slice buf P i)) \<le> segment_size (int (length buf)) P i"
proof -
  have "0 \<le> segment_size (int (length buf)) P i" using assms by (intro segment_size_nonneg) auto
  then show ?thesis by (simp add: slice_def)
qed

lemma delivered_counts:
  assumes "\<forall>i<n. \<exists>k. f i = Some k \<and> delivers w i (bytes_of_ll k)"
    and "map f [0..<n] = map Some ks"
  shows "list_all2 (\<lambda>i k. delivers w i (bytes_of_ll k)) [0..<n] ks"
proof -
  have len: "length ks = n" using assms(2) by (metis length_map length_upt minus_nat.diff_0)
  have "delivers w ([0..<n] ! j) (bytes_of_ll (ks ! j))" if "j < n" for j
  proof -
    have "map f [0..<n] ! j = map Some ks ! j" using assms(2) by simp
    then have "f j = Some (ks ! j)" using that len by simp
    then show ?thesis using assms(1) that by auto
  qed
  then show ?thesis using len by (simp add: list_all2_conv_all_nth)
qed

text \<open>
  Claim C10. For every buffer, target byte and segment, the worker's count is the exact
  number of occurrences in its segment (the 64-bit counter never wraps), it is at most the
  segment's length, and when every channel delivers its worker's count the coordinator's
  64-bit total is the exact number of occurrences in the buffer, at most the buffer's
  length and so at most \<open>LLONG_MAX\<close>. The loop of count_char.c is bounded in the same way.
\<close>

theorem counts_cannot_overflow:
  assumes "1 \<le> P" and "int (length buf) \<le> LLONG_MAX"
  shows "(\<forall>i. 0 \<le> i \<and> i < P \<longrightarrow>
            (\<exists>k. child_count buf c (int (length buf)) P i = Some k
                 \<and> k = int (count_list (slice buf P i) c)
                 \<and> 0 \<le> k \<and> k \<le> segment_size (int (length buf)) P i))
       \<and> (int (length buf) \<le> INT_MAX \<longrightarrow>
            (\<exists>k. count_char buf c = Some k \<and> k = int (count_list buf c)
                 \<and> 0 \<le> k \<and> k \<le> int (length buf)))
       \<and> (\<forall>w. (\<forall>i<nat P. \<exists>k. child_count buf c (int (length buf)) P (int i) = Some k
                               \<and> delivers w i (bytes_of_ll k)) \<longrightarrow>
            (\<exists>t. collect w [0..<nat P] 0 = Some ([], Some t)
                 \<and> t = int (count_list buf c)
                 \<and> 0 \<le> t \<and> t \<le> int (length buf) \<and> t \<le> LLONG_MAX))"
proof -
  let ?n = "int (length buf)"
  let ?ks = "map (\<lambda>i. int (count_list (slice buf P (int i)) c)) [0..<nat P]"
  have a: "\<forall>i. 0 \<le> i \<and> i < P \<longrightarrow>
            (\<exists>k. child_count buf c ?n P i = Some k \<and> k = int (count_list (slice buf P i) c)
                 \<and> 0 \<le> k \<and> k \<le> segment_size ?n P i)"
  proof (intro allI impI)
    fix i assume i: "0 \<le> i \<and> i < P"
    have "int (count_list (slice buf P i) c) \<le> int (length (slice buf P i))"
      using count_list_le_length [of "slice buf P i" c] by simp
    then have "int (count_list (slice buf P i) c) \<le> segment_size ?n P i"
      using slice_length [OF assms(1), of buf i] by simp
    then show "\<exists>k. child_count buf c ?n P i = Some k \<and> k = int (count_list (slice buf P i) c)
                 \<and> 0 \<le> k \<and> k \<le> segment_size ?n P i"
      using child_count_exact [OF assms, of i c] i by simp
  qed
  have le: "int (count_list buf c) \<le> ?n" using count_list_le_length [of buf c] by simp
  have b: "?n \<le> INT_MAX \<longrightarrow>
            (\<exists>k. count_char buf c = Some k \<and> k = int (count_list buf c) \<and> 0 \<le> k \<and> k \<le> ?n)"
    using le by (simp add: count_char_exact)
  have tot: "sum_list ?ks = int (count_list buf c)"
    using total_counts [OF assms(1), of buf c] by (simp add: comp_def)
  have c: "\<forall>w. (\<forall>i<nat P. \<exists>k. child_count buf c ?n P (int i) = Some k \<and> delivers w i (bytes_of_ll k)) \<longrightarrow>
            (\<exists>t. collect w [0..<nat P] 0 = Some ([], Some t) \<and> t = int (count_list buf c)
                 \<and> 0 \<le> t \<and> t \<le> ?n \<and> t \<le> LLONG_MAX)"
  proof (intro allI impI)
    fix w
    assume d: "\<forall>i<nat P. \<exists>k. child_count buf c ?n P (int i) = Some k \<and> delivers w i (bytes_of_ll k)"
    have "list_all2 (\<lambda>i k. delivers w i (bytes_of_ll k)) [0..<nat P] ?ks"
      using d segment_counts_exact [OF assms, of c] by (rule delivered_counts)
    moreover have "\<forall>k\<in>set ?ks. 0 \<le> k" by auto
    moreover have "0 + sum_list ?ks \<le> LLONG_MAX" using tot le assms(2) by simp
    ultimately have "collect w [0..<nat P] 0 = Some ([], Some (0 + sum_list ?ks))"
      by (intro collect_delivered) simp_all
    then show "\<exists>t. collect w [0..<nat P] 0 = Some ([], Some t) \<and> t = int (count_list buf c)
                 \<and> 0 \<le> t \<and> t \<le> ?n \<and> t \<le> LLONG_MAX"
      using tot le assms(2) by simp
  qed
  from a b c show ?thesis by blast
qed

lemma demo_delivers: "delivers demo_world i (bytes_of_ll 2)"
  by (simp add: delivers_def demo_world_def bytes_of_ll_def upt_rec)

theorem counts_cannot_overflow_witness:
  "child_count ''aabcaabc'' CHR ''a'' (int (length ''aabcaabc'')) 2 1 = Some 2
   \<and> 2 \<le> segment_size (int (length ''aabcaabc'')) 2 1
   \<and> count_char ''aabcaabc'' CHR ''a'' = Some 4
   \<and> collect demo_world [0..<nat 2] 0 = Some ([], Some 4)"
proof -
  let ?buf = "''aabcaabc''" and ?c = "CHR ''a''"
  have h1: "(1::int) \<le> 2" by simp
  have h2: "int (length ?buf) \<le> LLONG_MAX" by (simp add: LLONG_MAX_def)
  have h3: "int (length ?buf) \<le> INT_MAX" by (simp add: INT_MAX_def)
  note t = counts_cannot_overflow [OF h1 h2, of ?c]
  have cc: "map (\<lambda>i. child_count ?buf ?c (int (length ?buf)) 2 (int i)) [0..<nat 2] = [Some 2, Some 2]"
    by (rule demo_child_counts)
  then have c0: "child_count ?buf ?c (int (length ?buf)) 2 0 = Some 2"
    and c1: "child_count ?buf ?c (int (length ?buf)) 2 1 = Some 2"
    by (simp_all add: upt_rec)
  have "\<exists>k. child_count ?buf ?c (int (length ?buf)) 2 1 = Some k
           \<and> k = int (count_list (slice ?buf 2 1) ?c)
           \<and> 0 \<le> k \<and> k \<le> segment_size (int (length ?buf)) 2 1"
    using t [THEN conjunct1, THEN spec, of 1] by simp
  then have a: "2 \<le> segment_size (int (length ?buf)) 2 1"
    using c1 by auto
  have b: "count_char ?buf ?c = Some 4"
    using t [THEN conjunct2, THEN conjunct1] h3 by simp
  have "\<forall>i<nat 2. \<exists>k. child_count ?buf ?c (int (length ?buf)) 2 (int i) = Some k
          \<and> delivers demo_world i (bytes_of_ll k)"
    using c0 c1 demo_delivers by (auto simp: less_Suc_eq numeral_2_eq_2)
  then have "\<exists>t. collect demo_world [0..<nat 2] 0 = Some ([], Some t)
                 \<and> t = int (count_list ?buf ?c)"
    using t [THEN conjunct2, THEN conjunct2, THEN spec, of demo_world] by blast
  then have c: "collect demo_world [0..<nat 2] 0 = Some ([], Some 4)" by simp
  from a b c c1 show ?thesis by simp
qed



section \<open>Properties of the collection\<close>

subsection \<open>Collecting: timeouts\<close>

text \<open>
  What the collection loop does in every run: a channel whose wait times out adds its
  message to the error stream and nothing else, and the outcome is that of the channels
  that did not time out.
\<close>

lemma collect_timeout_step:
  "timed_out w i \<Longrightarrow>
   collect w (i # is) tc =
     (case collect w is tc of
        None \<Rightarrow> None
      | Some (evs, r) \<Rightarrow> Some (Stderr (timeout_msg i) # evs, r))"
  by (simp add: timed_out_def)

lemma collect_skips_timeouts:
  "map_option snd (collect w is tc)
     = map_option snd (collect w (filter (\<lambda>i. \<not> timed_out w i) is) tc)"
proof (induction "is" arbitrary: tc)
  case Nil
  then show ?case by simp
next
  case (Cons i "is")
  show ?case
  proof (cases "timed_out w i")
    case True
    have "map_option snd (collect w (i # is) tc) = map_option snd (collect w is tc)"
      unfolding collect_timeout_step [OF True] by (simp split: option.splits prod.splits)
    then show ?thesis using True Cons.IH [of tc] by simp
  next
    case False
    then show ?thesis
      using Cons.IH
      by (simp add: timed_out_def split: option.splits fd_state.splits)
  qed
qed

lemma collect_success_events:
  "collect w is tc = Some (evs, Some t) \<Longrightarrow>
   evs = map (\<lambda>i. Stderr (timeout_msg i)) (filter (timed_out w) is)"
proof (induction "is" arbitrary: tc evs)
  case Nil
  then show ?case by simp
next
  case (Cons i "is")
  show ?case
  proof (cases "timed_out w i")
    case True
    obtain evs' where "collect w is tc = Some (evs', Some t)" and "evs = Stderr (timeout_msg i) # evs'"
      using Cons.prems unfolding collect_timeout_step [OF True]
      by (auto split: option.splits prod.splits)
    then show ?thesis using True Cons.IH [of tc evs'] by simp
  next
    case False
    then show ?thesis
      using Cons.prems Cons.IH
      by (auto simp: timed_out_def split: option.splits fd_state.splits)
  qed
qed

text \<open>
  Claim C3 asks that a timeout on a channel fails the whole job. The code reports the
  channel's index and then goes on (third.c, lines 259-261 have no \<open>return\<close>, where the
  branches for a failed \<open>select\<close> and a failed \<open>read\<close> beside them return EXIT_FAILURE).
  In this run with \<open>P=2\<close> over \<open>aabcaabc\<close>, channel 0 times out and channel 1 delivers 2:
  main reports pipe 0, then prints the total 2 of the remaining channel as the count and
  returns EXIT_SUCCESS.
\<close>

theorem timeout_run_exits_success:
  "select_loop (selects timeout_world 0) = Some FdNotSet
   \<and> main timeout_world
     = Some ([Stdout (line ''1/4 -> File opened successfully :)''),
              Stdout (line ''2/4 -> File read successfully :)''),
              Stdout (line ''P environment variable found: 2''),
              Stdout (line ''Using 2 child processes for searching.''),
              ActiveChildren 2, PipeCreated 0, Forked 0, PipeCreated 1, Forked 1,
              Stderr (line ''Timeout waiting for data on pipe 0''),
              Waited 0, Waited 1,
              Stdout (line (''3/4 -> Character counted successfully: total 2''
                            @ '' occurrences of character '' @ quoted CHR ''a'' @ '' :)'')),
              Stdout (line ''4/4 -> Result written successfully :)''),
              Stdout (line ''All done! :)'')], EXIT_SUCCESS)"
  by code_simp

subsection \<open>Collecting: a closed channel\<close>

lemma read_count_eintr:
  "read_count (replicate n (ReadError EINTR) @ rs) mem rb = read_count rs mem rb"
proof (induction n)
  case 0
  then show ?case by simp
next
  case (Suc n)
  then show ?case by (cases rs) auto
qed

lemma zero_count: "ll_of_bytes (replicate 8 (CHR 0x00)) = 0"
  by code_simp

lemma collect_closed_channel_step:
  assumes "select_loop (selects w i) = Some FdIsSet"
    and "- LLONG_MAX - 1 \<le> tc \<and> tc \<le> LLONG_MAX"
    and "reads w i = replicate n (ReadError EINTR) @ ReadBytes [] # rest"
  shows "collect w (i # is) tc = collect w is tc"
proof -
  have w: "wrap_ll tc = tc"
    using assms(2) by (intro wrap_ll_id) (simp_all add: LLONG_MAX_def)
  show ?thesis
    using assms(1,3) w by (simp add: read_count_eintr zero_count)
qed

text \<open>
  Claim C4 asks that a channel closed before the whole count has arrived fails the job and
  that a count received in part is never added. The code leaves its read loop at end of
  file and adds \<open>child_count\<close> as it stands (third.c, lines 254-258: \<open>break\<close>, then
  \<open>total_count += child_count\<close> with no test of \<open>read_bytes\<close>). In the first run channel 0
  is closed before any byte: main goes on, prints the total 2 of the other channel as the
  count and returns EXIT_SUCCESS. In the second run channel 0 is closed after the 3 bytes
  05 00 00: they are added as the count 5, and main prints the total 7 and returns
  EXIT_SUCCESS.
\<close>

theorem closed_channel_run_exits_success:
  "reads eof_world 0 = [ReadBytes []]
   \<and> main eof_world
     = Some ([Stdout (line ''1/4 -> File opened successfully :)''),
              Stdout (line ''2/4 -> File read successfully :)''),
              Stdout (line ''P environment variable found: 2''),
              Stdout (line ''Using 2 child processes for searching.''),
              ActiveChildren 2, PipeCreated 0, Forked 0, PipeCreated 1, Forked 1,
              Waited 0, Waited 1,
              Stdout (line (''3/4 -> Character counted successfully: total 2''
                            @ '' occurrences of character '' @ quoted CHR ''a'' @ '' :)'')),
              Stdout (line ''4/4 -> Result written successfully :)''),
              Stdout (line ''All done! :)'')], EXIT_SUCCESS)
   \<and> reads partial_world 0 = [ReadBytes [CHR 0x05, CHR 0x00, CHR 0x00], ReadBytes []]
   \<and> main partial_world
     = Some ([Stdout (line ''1/4 -> File opened successfully :)''),
              Stdout (line ''2/4 -> File read successfully :)''),
              Stdout (line ''P environment variable found: 2''),
              Stdout (line ''Using 2 child processes for searching.''),
              ActiveChildren 2, PipeCreated 0, Forked 0, PipeCreated 1, Forked 1,
              Waited 0, Waited 1,
              Stdout (line (''3/4 -> Character counted successfully: total 7''
                            @ '' occurrences of character '' @ quoted CHR ''a'' @ '' :)'')),
              Stdout (line ''4/4 -> Result written successfully :)''),
              Stdout (line ''All done! :)'')], EXIT_SUCCESS)"
  by code_simp

subsection \<open>The transfer of the count\<close>

lemma read_count_retries:
  "list_all retried rs \<Longrightarrow> length mem = 8 \<Longrightarrow> rb \<le> 8 \<Longrightarrow> 8 \<le> rb + length (script_data rs) \<Longrightarrow>
   read_count rs mem rb = Some (Some (take rb mem @ take (8 - rb) (script_data rs)))"
proof (induction rs arbitrary: mem rb)
  case Nil
  then show ?case by simp
next
  case (Cons r rs)
  show ?case
  proof (cases "rb < 8")
    case False
    with Cons.prems show ?thesis by simp
  next
    case True
    show ?thesis
    proof (cases r)
      case (ReadError e)
      then have "e = EINTR" using Cons.prems by simp
      then show ?thesis
        using ReadError True Cons.prems Cons.IH [of mem rb] by simp
    next
      case (ReadBytes d)
      let ?got = "take (8 - rb) d"
      let ?mem' = "take rb mem @ ?got @ drop (rb + length ?got) mem"
      have dne: "d \<noteq> []" using ReadBytes Cons.prems by simp
      have gpos: "length ?got \<noteq> 0" using dne True by simp
      have glen: "length ?got = min (8 - rb) (length d)" by simp
      have lm: "length ?mem' = 8" using Cons.prems True by (simp add: min_def)
      have rb': "rb + length ?got \<le> 8" using True by simp
      have rest: "8 \<le> rb + length ?got + length (script_data rs)"
        using Cons.prems ReadBytes by (simp add: min_def)
      have ih: "read_count rs ?mem' (rb + length ?got)
          = Some (Some (take (rb + length ?got) ?mem'
                        @ take (8 - (rb + length ?got)) (script_data rs)))"
        using Cons.prems(1) lm rb' rest by (intro Cons.IH) simp_all
      have tk: "take (rb + length ?got) ?mem' = take rb mem @ ?got"
        using Cons.prems True by (simp add: min_def)
      have "take (8 - rb) (script_data (r # rs))
          = ?got @ take (8 - (rb + length ?got)) (script_data rs)"
        using ReadBytes by (simp add: min_def)
      moreover have "read_count (r # rs) mem rb = read_count rs ?mem' (rb + length ?got)"
        using ReadBytes True gpos by (simp add: Let_def)
      ultimately show ?thesis using ih tk by simp
    qed
  qed
qed

text \<open>
  Claim C5, as the code has it. The coordinator's read loop retries: over any answers that
  are interrupted calls or reads of at least one byte and that hand over 8 bytes in all, it
  ends with exactly the first 8 bytes. The worker's side does not retry: it calls write once,
  and any return value other than 8 (a short write or an error) makes it report the error
  and exit with a failure status, leaving the later answers unused.
\<close>

theorem channel_read_retries_write_does_not:
  "(list_all retried rs \<and> 8 \<le> length (script_data rs) \<longrightarrow>
      read_count rs (replicate 8 (CHR 0x00)) 0 = Some (Some (take 8 (script_data rs))))
   \<and> (child_count buf c file_size P i = Some count \<longrightarrow>
        child buf c file_size P i (ret # rest)
          = (if ret = 8 then Some ([], bytes_of_ll count, EXIT_SUCCESS, rest)
             else Some ([Perror ''Error writing to pipe in child''],
                        take (nat ret) (bytes_of_ll count), EXIT_FAILURE, rest)))"
  using read_count_retries [of rs "replicate 8 (CHR 0x00)" 0]
  by (simp add: child_def)

theorem channel_read_retries_write_does_not_witness:
  "list_all retried [ReadBytes [CHR 0x02, CHR 0x00, CHR 0x00], ReadError EINTR,
                     ReadBytes [CHR 0x00, CHR 0x00, CHR 0x00, CHR 0x00, CHR 0x00]]
   \<and> read_count [ReadBytes [CHR 0x02, CHR 0x00, CHR 0x00], ReadError EINTR,
                  ReadBytes [CHR 0x00, CHR 0x00, CHR 0x00, CHR 0x00, CHR 0x00]]
        (replicate 8 (CHR 0x00)) 0 = Some (Some (bytes_of_ll 2))
   \<and> child_count ''aabcaabc'' CHR ''a'' 8 2 0 = Some 2
   \<and> child ''aabcaabc'' CHR ''a'' 8 2 0 [8] = Some ([], bytes_of_ll 2, EXIT_SUCCESS, [])"
proof -
  let ?rs = "[ReadBytes [CHR 0x02, CHR 0x00, CHR 0x00], ReadError EINTR,
              ReadBytes [CHR 0x00, CHR 0x00, CHR 0x00, CHR 0x00, CHR 0x00]]"
  have a: "list_all retried ?rs \<and> 8 \<le> length (script_data ?rs)" by simp
  have b: "take 8 (script_data ?rs) = bytes_of_ll 2" by code_simp
  have c: "child_count ''aabcaabc'' CHR ''a'' 8 2 0 = Some 2" by code_simp
  show ?thesis
    using channel_read_retries_write_does_not
      [of ?rs "''aabcaabc''" "CHR ''a''" 8 2 0 2 8 "[]"] a b c
    by simp
qed

theorem short_write_not_retried_counterexample:
  "child ''aabcaabc'' CHR ''a'' 8 2 0 [3, 5]
     = Some ([Perror ''Error writing to pipe in child''], take 3 (bytes_of_ll 2), EXIT_FAILURE, [5])"
  by code_simp



section \<open>Properties of the signal handlers\<close>

subsection \<open>The SIGINT handler\<close>

lemma sigint_run_Cons:
  "sigint_run ((now, ac) # ts) lp
     = (if now - lp < 1 then (None # fst (sigint_run ts lp), snd (sigint_run ts lp))
        else (Some (sigint_msg ac) # fst (sigint_run ts now), snd (sigint_run ts now)))"
  by (simp add: sigint_handler_def split: prod.splits)

declare sigint_run.simps(2) [simp del]

lemma sigint_run_append:
  "sigint_run (xs @ ys) lp
     = (fst (sigint_run xs lp) @ fst (sigint_run ys (snd (sigint_run xs lp))),
        snd (sigint_run ys (snd (sigint_run xs lp))))"
  by (induction xs arbitrary: lp) (auto simp: sigint_run_Cons)

lemma sigint_run_length: "length (fst (sigint_run ts lp)) = length ts"
  by (induction ts arbitrary: lp) (auto simp: sigint_run_Cons)

lemma sigint_run_nth:
  assumes "k < length ts"
  shows "fst (sigint_run ts lp) ! k
       = (if 1 \<le> fst (ts ! k) - snd (sigint_run (take k ts) lp)
          then Some (sigint_msg (snd (ts ! k))) else None)"
proof -
  have ts: "ts = take k ts @ (ts ! k) # drop (Suc k) ts"
    using assms by (simp add: id_take_nth_drop)
  have len: "length (fst (sigint_run (take k ts) lp)) = k"
    using assms by (simp add: sigint_run_length)
  obtain now ac where x: "ts ! k = (now, ac)" by (cases "ts ! k")
  have "fst (sigint_run ts lp) ! k
      = fst (sigint_run ((ts ! k) # drop (Suc k) ts) (snd (sigint_run (take k ts) lp))) ! 0"
    by (subst ts, subst sigint_run_append) (simp add: nth_append len)
  also have "\<dots> = (if 1 \<le> now - snd (sigint_run (take k ts) lp)
                   then Some (sigint_msg ac) else None)"
    by (simp add: x sigint_run_Cons)
  finally show ?thesis by (simp add: x)
qed

lemma sigint_run_last_print:
  "snd (sigint_run ts lp) = last (lp # print_times ts (fst (sigint_run ts lp)))"
proof (induction ts arbitrary: lp)
  case Nil
  then show ?case by (simp add: print_times_def)
next
  case (Cons x ts)
  obtain now ac where x: "x = (now, ac)" by (cases x)
  show ?case
  proof (cases "now - lp < 1")
    case True
    then show ?thesis
      using Cons.IH [of lp] by (simp add: x sigint_run_Cons print_times_def)
  next
    case False
    then show ?thesis
      using Cons.IH [of now] by (simp add: x sigint_run_Cons print_times_def)
  qed
qed

lemma sigint_same_second_silent:
  "\<forall>x\<in>set ts. fst x = t \<Longrightarrow> fst (sigint_run ts t) = replicate (length ts) None"
  by (induction ts) (auto simp: sigint_run_Cons)

lemma sigint_same_second:
  assumes "\<forall>x\<in>set ts. fst x = t" and "1 \<le> t - lp"
  shows "fst (sigint_run ((t, ac) # ts) lp) = Some (sigint_msg ac) # replicate (length ts) None"
  using assms sigint_same_second_silent [of ts t]
  by (simp add: sigint_run_Cons)

lemma sigint_spaced:
  "sorted_wrt (\<lambda>a b. fst a + 1 \<le> fst b) ts \<Longrightarrow> \<forall>x\<in>set ts. 1 \<le> fst x - lp \<Longrightarrow>
   fst (sigint_run ts lp) = map (\<lambda>x. Some (sigint_msg (snd x))) ts"
proof (induction ts arbitrary: lp)
  case Nil
  then show ?case by simp
next
  case (Cons x ts)
  obtain now ac where x: "x = (now, ac)" by (cases x)
  have "\<forall>y\<in>set ts. 1 \<le> fst y - now" using Cons.prems(1) x by auto
  moreover have "sorted_wrt (\<lambda>a b. fst a + 1 \<le> fst b) ts" using Cons.prems(1) by simp
  ultimately have "fst (sigint_run ts now) = map (\<lambda>x. Some (sigint_msg (snd x))) ts"
    by (intro Cons.IH)
  moreover have "\<not> now - lp < 1" using Cons.prems(2) x by simp
  ultimately show ?case by (simp add: x sigint_run_Cons)
qed

lemma sigint_msg_text:
  "sigint_msg ac = CHR 0x0A # line (''Received SIGINT. Active child processes: '' @ show_int ac)"
  by (simp add: sigint_msg_def)

lemma time_NULL_spaced: "a + 1000 \<le> b \<Longrightarrow> time_NULL a + 1 \<le> time_NULL b"
proof -
  assume "a + 1000 \<le> b"
  then have "(a + 1000) div 1000 \<le> b div 1000" by (rule zdiv_mono1) simp
  then show ?thesis by (simp add: time_NULL_def)
qed

lemma sigint_spaced_instants:
  assumes "sorted_wrt (\<lambda>a b. fst a + 1000 \<le> fst b) ms"
    and "\<forall>x\<in>set ms. 1 \<le> time_NULL (fst x) - lp"
  shows "fst (sigint_run (map (\<lambda>x. (time_NULL (fst x), snd x)) ms) lp)
       = map (\<lambda>x. Some (sigint_msg (snd x))) ms"
proof -
  let ?rs = "map (\<lambda>x. (time_NULL (fst x), snd x)) ms"
  have "sorted_wrt (\<lambda>a b. time_NULL (fst a) + 1 \<le> time_NULL (fst b)) ms"
    using assms(1) by (rule sorted_wrt_mono_rel [rotated]) (simp add: time_NULL_spaced)
  then have "sorted_wrt (\<lambda>a b. fst a + 1 \<le> fst b) ?rs"
    by (simp add: sorted_wrt_map)
  moreover have "\<forall>x\<in>set ?rs. 1 \<le> fst x - lp" using assms(2) by simp
  ultimately have "fst (sigint_run ?rs lp) = map (\<lambda>x. Some (sigint_msg (snd x))) ?rs"
    by (rule sigint_spaced)
  then show ?thesis by (simp add: comp_def)
qed

text \<open>
  Claim C6, as the code has it. The handler compares whole seconds: the value of
  \<open>time(NULL)\<close> at the trigger and \<open>last_print\<close>, which is the value at the last trigger that
  printed (0 before any has). In every sequence of triggers, a trigger prints the line
  \<open>Received SIGINT. Active child processes: n\<close>, with \<open>n\<close> the value of the counter,
  exactly when its reading of the clock is at least 1 above \<open>last_print\<close>. Triggers with the
  same reading as one that printed print nothing, so they give one line in all; triggers
  whose readings are each at least 1 above the one before all print, and so do triggers that
  are each at least 1000 milliseconds after the one before.
\<close>

theorem sigint_debounce:
  "(\<forall>k<length ts.
      fst (sigint_run ts lp) ! k
        = (if 1 \<le> fst (ts ! k) - snd (sigint_run (take k ts) lp)
           then Some (CHR 0x0A # line (''Received SIGINT. Active child processes: '' @ show_int (snd (ts ! k)))) else None))
   \<and> length (fst (sigint_run ts lp)) = length ts
   \<and> snd (sigint_run ts lp) = last (lp # print_times ts (fst (sigint_run ts lp)))
   \<and> ((\<forall>x\<in>set ts. fst x = t) \<and> 1 \<le> t - lp \<longrightarrow>
        fst (sigint_run ((t, ac) # ts) lp)
          = Some (CHR 0x0A # line (''Received SIGINT. Active child processes: '' @ show_int (ac))) # replicate (length ts) None)
   \<and> (sorted_wrt (\<lambda>a b. fst a + 1 \<le> fst b) ts \<and> (\<forall>x\<in>set ts. 1 \<le> fst x - lp) \<longrightarrow>
        fst (sigint_run ts lp) = map (\<lambda>x. Some (CHR 0x0A # line (''Received SIGINT. Active child processes: '' @ show_int (snd x)))) ts)
   \<and> (sorted_wrt (\<lambda>a b. fst a + 1000 \<le> fst b) ms \<and> (\<forall>x\<in>set ms. 1 \<le> time_NULL (fst x) - lp) \<longrightarrow>
        fst (sigint_run (map (\<lambda>x. (time_NULL (fst x), snd x)) ms) lp)
          = map (\<lambda>x. Some (CHR 0x0A # line (''Received SIGINT. Active child processes: '' @ show_int (snd x)))) ms)"
proof -
  have a: "\<forall>k<length ts.
      fst (sigint_run ts lp) ! k
        = (if 1 \<le> fst (ts ! k) - snd (sigint_run (take k ts) lp)
           then Some (sigint_msg (snd (ts ! k))) else None)"
    using sigint_run_nth [of _ ts lp] by blast
  have b: "length (fst (sigint_run ts lp)) = length ts" by (rule sigint_run_length)
  have c: "snd (sigint_run ts lp) = last (lp # print_times ts (fst (sigint_run ts lp)))"
    by (rule sigint_run_last_print)
  have d: "(\<forall>x\<in>set ts. fst x = t) \<and> 1 \<le> t - lp \<longrightarrow>
        fst (sigint_run ((t, ac) # ts) lp) = Some (sigint_msg ac) # replicate (length ts) None"
    using sigint_same_second [of ts t lp ac] by blast
  have e: "sorted_wrt (\<lambda>a b. fst a + 1 \<le> fst b) ts \<and> (\<forall>x\<in>set ts. 1 \<le> fst x - lp) \<longrightarrow>
        fst (sigint_run ts lp) = map (\<lambda>x. Some (sigint_msg (snd x))) ts"
    using sigint_spaced [of ts lp] by blast
  have f: "sorted_wrt (\<lambda>a b. fst a + 1000 \<le> fst b) ms \<and> (\<forall>x\<in>set ms. 1 \<le> time_NULL (fst x) - lp) \<longrightarrow>
        fst (sigint_run (map (\<lambda>x. (time_NULL (fst x), snd x)) ms) lp)
          = map (\<lambda>x. Some (sigint_msg (snd x))) ms"
    using sigint_spaced_instants [of ms lp] by blast
  from a b c d e f show ?thesis unfolding sigint_msg_text by blast
qed

theorem sigint_debounce_witness:
  "fst (sigint_run [(100, 2), (101, 1), (105, 0)] 0)
     = [Some (CHR 0x0A # line ''Received SIGINT. Active child processes: 2''),
        Some (CHR 0x0A # line ''Received SIGINT. Active child processes: 1''),
        Some (CHR 0x0A # line ''Received SIGINT. Active child processes: 0'')]
   \<and> snd (sigint_run [(100, 2), (101, 1), (105, 0)] 0) = 105
   \<and> fst (sigint_run [(100, 2), (100, 2), (100, 1)] 0)
     = [Some (CHR 0x0A # line ''Received SIGINT. Active child processes: 2''), None, None]
   \<and> fst (sigint_run (map (\<lambda>x. (time_NULL (fst x), snd x)) [(100900, 2), (101900, 1)]) 0)
     = [Some (CHR 0x0A # line ''Received SIGINT. Active child processes: 2''),
        Some (CHR 0x0A # line ''Received SIGINT. Active child processes: 1'')]"
proof -
  let ?ts = "[(100, 2), (101, 1), (105, 0)] :: (int \<times> int) list"
  let ?same = "[(100, 2), (100, 1)] :: (int \<times> int) list"
  let ?ms = "[(100900, 2), (101900, 1)] :: (int \<times> int) list"
  have sh: "show_int 2 = ''2''" "show_int 1 = ''1''" "show_int 0 = ''0''" by code_simp+
  have h1: "sorted_wrt (\<lambda>a b. fst a + 1 \<le> fst b) ?ts \<and> (\<forall>x\<in>set ?ts. 1 \<le> fst x - 0)"
    by simp
  have h2: "(\<forall>x\<in>set ?same. fst x = 100) \<and> (1::int) \<le> 100 - 0" by simp
  have h3: "sorted_wrt (\<lambda>a b. fst a + 1000 \<le> fst b) ?ms \<and> (\<forall>x\<in>set ?ms. 1 \<le> time_NULL (fst x) - 0)"
    by (simp add: time_NULL_def)
  have a: "fst (sigint_run ?ts 0)
      = map (\<lambda>x. Some (CHR 0x0A # line (''Received SIGINT. Active child processes: '' @ show_int (snd x)))) ?ts"
    using sigint_debounce [of ?ts 0 0 0 ?ms] h1 by blast
  have b: "snd (sigint_run ?ts 0) = last (0 # print_times ?ts (fst (sigint_run ?ts 0)))"
    using sigint_debounce [of ?ts 0 0 0 ?ms] by blast
  have c: "fst (sigint_run ((100, 2) # ?same) 0)
      = Some (CHR 0x0A # line (''Received SIGINT. Active child processes: '' @ show_int (2))) # replicate (length ?same) None"
    using sigint_debounce [of ?same 0 100 2 ?ms] h2 by blast
  have d: "fst (sigint_run (map (\<lambda>x. (time_NULL (fst x), snd x)) ?ms) 0)
      = map (\<lambda>x. Some (CHR 0x0A # line (''Received SIGINT. Active child processes: '' @ show_int (snd x)))) ?ms"
    using sigint_debounce [of ?ts 0 0 0 ?ms] h3 by blast
  have b': "snd (sigint_run ?ts 0) = 105"
    unfolding b a by (simp add: print_times_def)
  from a b' c d show ?thesis by (simp add: sh numeral_2_eq_2)
qed

theorem sigint_within_one_second_counterexample:
  "(101100::int) - 100900 < 1000
   \<and> fst (sigint_run [(time_NULL 100900, 2), (time_NULL 101100, 2)] 0)
     = [Some (CHR 0x0A # line ''Received SIGINT. Active child processes: 2''),
        Some (CHR 0x0A # line ''Received SIGINT. Active child processes: 2'')]"
  by code_simp

subsection \<open>The SIGCHLD handler\<close>

lemma sigchld_handler_reaps:
  "list_all (\<lambda>pid. 0 < pid) pids \<Longrightarrow> r \<le> 0 \<Longrightarrow>
   sigchld_handler (pids @ r # rest) n = Some (n - int (length pids))"
  by (induction pids arbitrary: n) auto

lemma sigchld_handler_result:
  "sigchld_handler answers n = Some n' \<Longrightarrow>
   n' = n - int (length (takeWhile (\<lambda>pid. 0 < pid) answers))"
proof (induction answers arbitrary: n)
  case Nil
  then show ?case by simp
next
  case (Cons pid answers)
  show ?case
  proof (cases "0 < pid")
    case True
    then have "sigchld_handler answers (n - 1) = Some n'" using Cons.prems by simp
    then have "n' = n - 1 - int (length (takeWhile (\<lambda>pid. 0 < pid) answers))"
      by (rule Cons.IH)
    then show ?thesis using True by simp
  next
    case False
    then show ?thesis using Cons.prems by simp
  qed
qed

lemma sigchld_run_result:
  "sigchld_run scripts n = Some ns \<Longrightarrow>
   length ns = length scripts
   \<and> sorted (rev (n # ns))
   \<and> last (n # ns) = n - int (length (concat (map (takeWhile (\<lambda>pid. 0 < pid)) scripts)))"
proof (induction scripts arbitrary: n ns)
  case Nil
  then show ?case by simp
next
  case (Cons answers scripts)
  obtain n' ns' where h: "sigchld_handler answers n = Some n'"
      "sigchld_run scripts n' = Some ns'" "ns = n' # ns'"
    using Cons.prems by (auto split: option.splits)
  have n': "n' = n - int (length (takeWhile (\<lambda>pid. 0 < pid) answers))"
    using h(1) by (rule sigchld_handler_result)
  have ih: "length ns' = length scripts \<and> sorted (rev (n' # ns'))
      \<and> last (n' # ns') = n' - int (length (concat (map (takeWhile (\<lambda>pid. 0 < pid)) scripts)))"
    using h(2) by (rule Cons.IH)
  have "sorted (rev (n # n' # ns'))"
    using ih n' by (auto simp: sorted_append)
  then show ?case using ih n' h(3) by simp
qed



section \<open>Properties of main\<close>

subsection \<open>What a run of main records\<close>

lemma spawn_no_init: "spawn w is = (evs, ok) \<Longrightarrow> \<forall>e\<in>set evs. \<not> is_counter_init e"
  by (induction "is" arbitrary: evs ok) (auto split: if_splits prod.splits)

lemma collect_no_init: "collect w is tc = Some (evs, r) \<Longrightarrow> \<forall>e\<in>set evs. \<not> is_counter_init e"
  by (induction "is" arbitrary: tc evs r)
    (auto split: option.splits fd_state.splits prod.splits)

lemma reap_no_init: "reap w is = Some evs \<Longrightarrow> \<forall>e\<in>set evs. \<not> is_counter_init e"
  by (induction "is" arbitrary: evs) (auto split: if_splits option.splits)

lemma finish_no_init: "finish w c f t = Some (evs, code) \<Longrightarrow> \<forall>e\<in>set evs. \<not> is_counter_init e"
  by (auto simp: finish_def split: if_splits option.splits bool.splits)

lemma prepend_Some:
  "prepend evs r = Some (evs', code) \<longleftrightarrow> (\<exists>tl. r = Some (tl, code) \<and> evs' = evs @ tl)"
  by (auto simp: prepend_def split: option.splits)

lemma run_workers_no_init:
  assumes "run_workers w c f P = Some (evs, code)"
  shows "\<forall>e\<in>set evs. \<not> is_counter_init e"
proof -
  obtain evs1 ok where sp: "spawn w [0..<nat P] = (evs1, ok)" by (cases "spawn w [0..<nat P]")
  have n1: "\<forall>e\<in>set evs1. \<not> is_counter_init e" using sp by (rule spawn_no_init)
  show ?thesis
  proof (cases ok)
    case False
    then show ?thesis using assms sp n1 by (simp add: run_workers_def)
  next
    case True
    then obtain evs2 r where
      co: "collect w [0..<nat P] 0 = Some (evs2, r)" and
      rest: "(case r of None \<Rightarrow> Some (evs2, EXIT_FAILURE)
              | Some total_count \<Rightarrow>
                  prepend evs2
                    (case reap w [0..<nat P] of
                       None \<Rightarrow> None
                     | Some evs'' \<Rightarrow> prepend evs'' (finish w c f total_count)))
             = Some (drop (length evs1) evs, code)" and
      pre: "evs = evs1 @ drop (length evs1) evs"
      using assms sp
      by (auto simp: run_workers_def prepend_Some split: option.splits prod.splits)
    have n2: "\<forall>e\<in>set evs2. \<not> is_counter_init e" using co by (rule collect_no_init)
    have "\<forall>e\<in>set (drop (length evs1) evs). \<not> is_counter_init e"
    proof (cases r)
      case None
      then show ?thesis using rest n2 by simp
    next
      case (Some t)
      then obtain evs3 evs4 where
        re: "reap w [0..<nat P] = Some evs3" and
        fi: "finish w c f t = Some (evs4, code)" and
        e: "drop (length evs1) evs = evs2 @ evs3 @ evs4"
        using rest by (auto simp: prepend_Some split: option.splits)
      show ?thesis
        unfolding e using n2 reap_no_init [OF re] finish_no_init [OF fi] by auto
    qed
    then show ?thesis using n1 pre by (metis Un_iff set_append)
  qed
qed

lemma read_P_quiet:
  "read_P env = Some (evs, r) \<Longrightarrow> \<forall>e\<in>set evs. \<not> is_spawn e \<and> \<not> is_counter_init e"
  by (auto simp: read_P_def split: option.splits if_splits)

lemma run_job_shape:
  assumes "run_job w c f = Some (evs, code)"
  shows "(code = EXIT_FAILURE \<and> (\<forall>e\<in>set evs. \<not> is_spawn e \<and> \<not> is_counter_init e))
       \<or> (\<exists>pre post n evsP.
             evs = pre @ ActiveChildren n # post
           \<and> (\<forall>e\<in>set pre. \<not> is_spawn e \<and> \<not> is_counter_init e)
           \<and> (\<forall>e\<in>set post. \<not> is_counter_init e)
           \<and> read_P (getenv_P w) = Some (evsP, Some n))"
proof -
  obtain evsP r where rp: "read_P (getenv_P w) = Some (evsP, r)"
    using assms by (auto simp: run_job_def split: option.splits)
  have q: "\<forall>e\<in>set evsP. \<not> is_spawn e \<and> \<not> is_counter_init e" using rp by (rule read_P_quiet)
  show ?thesis
  proof (cases r)
    case None
    then show ?thesis using assms rp q by (simp add: run_job_def)
  next
    case (Some P)
    let ?pre = "evsP @ [Stdout (line (''Using '' @ show_int P @ '' child processes for searching.''))]"
    have qp: "\<forall>e\<in>set ?pre. \<not> is_spawn e \<and> \<not> is_counter_init e" using q by simp
    show ?thesis
    proof (cases "sigaction_int w \<and> sigaction_chld w \<and> malloc_pipes w")
      case False
      then have "code = EXIT_FAILURE \<and> (\<exists>m. evs = ?pre @ [Perror m])"
        using assms rp Some by (auto simp: run_job_def prepend_Some split: if_splits)
      then show ?thesis using qp by auto
    next
      case True
      then obtain post where
        ev: "evs = ?pre @ ActiveChildren P # post" and
        po: "(if \<not> malloc_pids w then Some ([Perror ''malloc error for child_pids''], EXIT_FAILURE)
              else run_workers w c f P) = Some (post, code)"
        using assms rp Some by (auto simp: run_job_def prepend_Some)
      have "\<forall>e\<in>set post. \<not> is_counter_init e"
        using po run_workers_no_init [of w c f P post code] by (auto split: if_splits)
      then show ?thesis using ev qp rp Some by blast
    qed
  qed
qed

lemma main_shape:
  assumes "main w = Some (evs, code)"
  shows "(code = EXIT_FAILURE \<and> (\<forall>e\<in>set evs. \<not> is_spawn e \<and> \<not> is_counter_init e))
       \<or> (\<exists>pre post n evsP.
             evs = pre @ ActiveChildren n # post
           \<and> (\<forall>e\<in>set pre. \<not> is_spawn e \<and> \<not> is_counter_init e)
           \<and> (\<forall>e\<in>set post. \<not> is_counter_init e)
           \<and> read_P (getenv_P w) = Some (evsP, Some n))"
proof (cases "length (argv w) = 4 \<and> length (argv w ! 3) = 1 \<and> open_input w
              \<and> (\<exists>n. fstat_input w = Some n \<and> n \<noteq> 0) \<and> malloc_buf w
              \<and> (\<exists>buf. read_input (input_reads w) (the (fstat_input w)) [] = Some (Some buf))")
  case False
  then have "code = EXIT_FAILURE \<and> (\<forall>e\<in>set evs. \<not> is_spawn e \<and> \<not> is_counter_init e)"
    using assms
    by (auto simp: main_def prepend_Some split: if_splits option.splits)
  then show ?thesis by blast
next
  case True
  let ?head = "[Stdout (line ''1/4 -> File opened successfully :)''),
                Stdout (line ''2/4 -> File read successfully :)'')]"
  obtain tl where rj: "run_job w (hd (argv w ! 3)) (argv w ! 1) = Some (tl, code)"
    and ev: "evs = ?head @ tl"
    using assms True by (auto simp: main_def prepend_Some)
  from run_job_shape [OF rj] show ?thesis
  proof
    assume "code = EXIT_FAILURE \<and> (\<forall>e\<in>set tl. \<not> is_spawn e \<and> \<not> is_counter_init e)"
    then show ?thesis using ev by auto
  next
    assume "\<exists>pre post n evsP.
             tl = pre @ ActiveChildren n # post
           \<and> (\<forall>e\<in>set pre. \<not> is_spawn e \<and> \<not> is_counter_init e)
           \<and> (\<forall>e\<in>set post. \<not> is_counter_init e)
           \<and> read_P (getenv_P w) = Some (evsP, Some n)"
    then obtain pre post n evsP where h:
      "tl = pre @ ActiveChildren n # post"
      "\<forall>e\<in>set pre. \<not> is_spawn e \<and> \<not> is_counter_init e"
      "\<forall>e\<in>set post. \<not> is_counter_init e"
      "read_P (getenv_P w) = Some (evsP, Some n)"
      by blast
    have "evs = (?head @ pre) @ ActiveChildren n # post" using ev h(1) by simp
    moreover have "\<forall>e\<in>set (?head @ pre). \<not> is_spawn e \<and> \<not> is_counter_init e"
      using h(2) by simp
    ultimately show ?thesis using h(3) h(4) by blast
  qed
qed



subsection \<open>The workers that main creates\<close>

lemma spawn_ok_events:
  "spawn w is = (evs, True) \<Longrightarrow> evs = concat (map (\<lambda>i. [PipeCreated i, Forked i]) is)"
  by (induction "is" arbitrary: evs) (auto split: if_splits prod.splits)

lemma collect_no_spawn: "collect w is tc = Some (evs, r) \<Longrightarrow> \<forall>e\<in>set evs. \<not> is_spawn e"
  by (induction "is" arbitrary: tc evs r)
    (auto split: option.splits fd_state.splits prod.splits)

lemma reap_no_spawn: "reap w is = Some evs \<Longrightarrow> \<forall>e\<in>set evs. \<not> is_spawn e"
  by (induction "is" arbitrary: evs) (auto split: if_splits option.splits)

lemma finish_no_spawn: "finish w c f t = Some (evs, code) \<Longrightarrow> \<forall>e\<in>set evs. \<not> is_spawn e"
  by (auto simp: finish_def split: if_splits option.splits bool.splits)

lemma filter_spawn_pairs:
  "filter is_spawn (concat (map (\<lambda>i. [PipeCreated i, Forked i]) is))
     = concat (map (\<lambda>i. [PipeCreated i, Forked i]) is)"
  by (induction "is") auto

lemma filter_none: "\<forall>e\<in>set evs. \<not> P e \<Longrightarrow> filter P evs = []"
  by (induction evs) auto

lemma run_workers_success_spawns:
  assumes "run_workers w c f P = Some (evs, EXIT_SUCCESS)"
  shows "filter is_spawn evs = concat (map (\<lambda>i. [PipeCreated i, Forked i]) [0..<nat P])"
proof -
  have ne: "EXIT_FAILURE \<noteq> EXIT_SUCCESS" by (simp add: EXIT_FAILURE_def EXIT_SUCCESS_def)
  obtain evs1 ok where sp: "spawn w [0..<nat P] = (evs1, ok)" by (cases "spawn w [0..<nat P]")
  have ok: ok using assms sp ne by (cases ok) (auto simp: run_workers_def)
  then have e1: "evs1 = concat (map (\<lambda>i. [PipeCreated i, Forked i]) [0..<nat P])"
    using sp by (simp add: spawn_ok_events)
  obtain evs2 t where co: "collect w [0..<nat P] 0 = Some (evs2, Some t)"
    using assms sp ok ne
    by (auto simp: run_workers_def prepend_Some split: option.splits prod.splits)
  obtain evs3 evs4 where re: "reap w [0..<nat P] = Some evs3"
    and fi: "finish w c f t = Some (evs4, EXIT_SUCCESS)"
    and ev: "evs = evs1 @ evs2 @ evs3 @ evs4"
    using assms sp ok co
    by (auto simp: run_workers_def prepend_Some split: option.splits prod.splits)
  have "filter is_spawn evs2 = []" "filter is_spawn evs3 = []" "filter is_spawn evs4 = []"
    using collect_no_spawn [OF co] reap_no_spawn [OF re] finish_no_spawn [OF fi]
    by (simp_all add: filter_none)
  then show ?thesis unfolding ev e1 by (simp add: filter_spawn_pairs)
qed

lemma main_success_spawns_P:
  assumes "main w = Some (evs, EXIT_SUCCESS)"
  shows "\<exists>evsP P. read_P (getenv_P w) = Some (evsP, Some P)
           \<and> filter is_spawn evs = concat (map (\<lambda>i. [PipeCreated i, Forked i]) [0..<nat P])"
proof -
  have ne: "EXIT_FAILURE \<noteq> EXIT_SUCCESS" by (simp add: EXIT_FAILURE_def EXIT_SUCCESS_def)
  obtain tl where rj: "run_job w (hd (argv w ! 3)) (argv w ! 1) = Some (tl, EXIT_SUCCESS)"
    and ev: "evs = [Stdout (line ''1/4 -> File opened successfully :)''),
                    Stdout (line ''2/4 -> File read successfully :)'')] @ tl"
    using assms ne
    by (auto simp: main_def prepend_Some split: if_splits option.splits)
  obtain evsP P where rp: "read_P (getenv_P w) = Some (evsP, Some P)"
    using rj ne by (auto simp: run_job_def split: option.splits prod.splits)
  have q: "\<forall>e\<in>set evsP. \<not> is_spawn e" using read_P_quiet [OF rp] by blast
  obtain post where rw: "run_workers w (hd (argv w ! 3)) (argv w ! 1) P = Some (post, EXIT_SUCCESS)"
    and tl: "tl = (evsP @ [Stdout (line (''Using '' @ show_int P
                                        @ '' child processes for searching.''))])
                  @ ActiveChildren P # post"
    using rj rp ne by (auto simp: run_job_def prepend_Some split: if_splits)
  have "filter is_spawn evs = filter is_spawn post"
    unfolding ev tl using q by (simp add: filter_none)
  then show ?thesis using rp run_workers_success_spawns [OF rw] by simp
qed

subsection \<open>The counter of active children\<close>

lemma counter_set_before_spawn:
  assumes "main w = Some (evs, code)" and "\<exists>e\<in>set evs. is_spawn e"
  shows "\<exists>pre post P evsP.
          evs = pre @ ActiveChildren P # post
        \<and> (\<forall>e\<in>set pre. \<not> is_spawn e \<and> \<not> is_counter_init e)
        \<and> (\<forall>e\<in>set post. \<not> is_counter_init e)
        \<and> read_P (getenv_P w) = Some (evsP, Some P)"
  using main_shape [OF assms(1)] assms(2) by blast

lemma sigchld_reaps_zombies:
  assumes "\<forall>p\<in>set zombies. 0 < p"
  shows "sigchld_handler (waitpid_answers running zombies) ac = Some (ac - int (length zombies))"
    and "dropWhile (\<lambda>pid. 0 < pid) zombies = []"
proof -
  have "list_all (\<lambda>pid. 0 < pid) zombies" using assms by (simp add: list_all_iff)
  moreover have "(if running = [] then - 1 else 0 :: int) \<le> 0" by simp
  ultimately show "sigchld_handler (waitpid_answers running zombies) ac
      = Some (ac - int (length zombies))"
    unfolding waitpid_answers_def by (rule sigchld_handler_reaps)
  show "dropWhile (\<lambda>pid. 0 < pid) zombies = []" using assms by simp
qed

lemma sys_step_bounds:
  assumes "sys_step e (ac, running, zombies) = Some (ac', running', zombies')"
    and "\<forall>p\<in>set (running @ zombies). 0 < p"
  shows "ac' \<le> ac
       \<and> ac - int (length running + length zombies) \<le> ac' - int (length running' + length zombies')
       \<and> (\<forall>p\<in>set (running' @ zombies'). 0 < p)"
proof (cases e)
  case (WorkerExits pid)
  then have h: "pid \<in> set running" "ac' = ac" "running' = remove1 pid running"
      "zombies' = zombies @ [pid]"
    using assms(1) by (auto split: if_splits)
  have len: "length running' + length zombies' = length running + length zombies"
    using h length_pos_if_in_set [OF h(1)] by (simp add: length_remove1)
  have "set (running' @ zombies') \<subseteq> set (running @ zombies)"
    using h set_remove1_subset [of pid running] by auto
  then have "\<forall>p\<in>set (running' @ zombies'). 0 < p" using assms(2) by blast
  then show ?thesis using h(2) len by simp
next
  case SigchldDelivered
  have z: "\<forall>p\<in>set zombies. 0 < p" using assms(2) by simp
  have "ac' = ac - int (length zombies)" "running' = running" "zombies' = []"
    using assms(1) SigchldDelivered sigchld_reaps_zombies(1) [OF z, of running ac]
      sigchld_reaps_zombies(2) [OF z]
    by auto
  then show ?thesis using assms(2) by auto
next
  case (MainWaitpid pid)
  then have h: "ac' = ac" "running' = running" "zombies' = remove1 pid zombies"
    using assms(1) by (auto split: if_splits)
  have len: "length zombies' \<le> length zombies"
    using h by (simp add: length_remove1)
  have "set (running' @ zombies') \<subseteq> set (running @ zombies)"
    using h set_remove1_subset [of pid zombies] by auto
  then have "\<forall>p\<in>set (running' @ zombies'). 0 < p" using assms(2) by blast
  then show ?thesis using h len by simp
qed

lemma sys_run_bounds:
  "sys_run es (ac, running, zombies) = Some (ac', running', zombies') \<Longrightarrow>
   \<forall>p\<in>set (running @ zombies). 0 < p \<Longrightarrow>
   ac' \<le> ac
   \<and> ac - int (length running + length zombies) \<le> ac' - int (length running' + length zombies')"
proof (induction es arbitrary: ac running zombies)
  case Nil
  then show ?case by simp
next
  case (Cons e es)
  obtain ac1 r1 z1 where st: "sys_step e (ac, running, zombies) = Some (ac1, r1, z1)"
    and rn: "sys_run es (ac1, r1, z1) = Some (ac', running', zombies')"
    using Cons.prems(1) by (auto split: option.splits)
  note b = sys_step_bounds [OF st Cons.prems(2)]
  have "ac' \<le> ac1 \<and> ac1 - int (length r1 + length z1) \<le> ac' - int (length running' + length zombies')"
    using rn b by (intro Cons.IH) simp_all
  then show ?case using b by linarith
qed

text \<open>
  Claim C7 asks for one decrement of the counter for each worker that terminates. The code
  decrements only for the workers that the handler's own \<open>waitpid\<close> reaps, and main reaps
  workers too (third.c, lines 266-268) without touching the counter. In this run of two
  workers with the pids 101 and 102, the first ends and the handler counts it; main then
  waits for both, and the second ends while main is blocked in \<open>waitpid\<close> for it, so that
  main reaps it and the handler finds no child. Both workers have terminated and the counter
  is left at 1; a SIGINT after that reports one active child.
\<close>

theorem worker_reaped_by_main_not_counted:
  "sys_run [WorkerExits 101, SigchldDelivered, MainWaitpid 101,
            WorkerExits 102, MainWaitpid 102, SigchldDelivered] (2, [101, 102], [])
     = Some (1, [], [])
   \<and> sigint_handler 1700000000 1 0
     = (1700000000, Some (CHR 0x0A # line ''Received SIGINT. Active child processes: 1''))"
  by code_simp

subsection \<open>The empty file\<close>

text \<open>
  Claim C9. When the input file has length 0, main returns EXIT_FAILURE and has created
  no channel and no worker; with well-formed arguments and a file that opens, all it has
  done is print the first progress line and the message that the file is empty.
\<close>

theorem empty_input_fails_before_spawn:
  assumes "fstat_input w = Some 0"
  shows "\<exists>evs. main w = Some (evs, EXIT_FAILURE)
           \<and> (\<forall>e\<in>set evs. \<not> is_spawn e)
           \<and> (length (argv w) = 4 \<and> length (argv w ! 3) = 1 \<and> open_input w \<longrightarrow>
                evs = [Stdout (line ''1/4 -> File opened successfully :)''),
                       Stderr (line ''Error: file is empty'')])"
  using assms by (simp add: main_def prepend_def)

theorem empty_input_fails_before_spawn_witness:
  "fstat_input empty_world = Some 0
   \<and> main empty_world = Some ([Stdout (line ''1/4 -> File opened successfully :)''),
                              Stderr (line ''Error: file is empty'')], EXIT_FAILURE)"
proof -
  have a: "fstat_input empty_world = Some 0" by (simp add: empty_world_def)
  have b: "length (argv empty_world) = 4 \<and> length (argv empty_world ! 3) = 1 \<and> open_input empty_world"
    by (simp add: empty_world_def demo_world_def)
  show ?thesis
    using empty_input_fails_before_spawn [OF a] a b by auto
qed



subsection \<open>The worker count\<close>

lemma digit_chars:
  "\<forall>k\<in>{0..<10::nat}. isdigit (''0123456789'' ! k)
                        \<and> (of_char (''0123456789'' ! k) :: int) = 48 + int k
                        \<and> \<not> isspace (''0123456789'' ! k)
                        \<and> ''0123456789'' ! k \<noteq> CHR ''-''
                        \<and> ''0123456789'' ! k \<noteq> CHR ''+''"
  by code_simp

lemma digits_val_snoc:
  "list_all isdigit xs \<Longrightarrow> isdigit d \<Longrightarrow>
   digits_val (xs @ [d]) acc = 10 * digits_val xs acc + (of_char d - 48)"
  by (induction xs arbitrary: acc) auto

lemma show_nat_digits:
  "show_nat n \<noteq> [] \<and> list_all isdigit (show_nat n) \<and> digits_val (show_nat n) 0 = int n"
proof (induction n rule: show_nat.induct)
  case (1 n)
  show ?case
  proof (cases "n < 10")
    case True
    then have "n \<in> {0..<10}" by simp
    then show ?thesis
      using digit_chars True by (subst (1 2 3) show_nat.simps) auto
  next
    case False
    have m: "n mod 10 \<in> {0..<10}" by simp
    have d: "isdigit (''0123456789'' ! (n mod 10))"
      "(of_char (''0123456789'' ! (n mod 10)) :: int) = 48 + int (n mod 10)"
      using digit_chars m by blast+
    have ih: "list_all isdigit (show_nat (n div 10))"
      "digits_val (show_nat (n div 10)) 0 = int (n div 10)"
      using "1.IH" False by simp_all
    have s: "show_nat n = show_nat (n div 10) @ [''0123456789'' ! (n mod 10)]"
      using False by (subst show_nat.simps) simp
    have "digits_val (show_nat n) 0 = 10 * int (n div 10) + int (n mod 10)"
      unfolding s using digits_val_snoc [OF ih(1) d(1), of 0] ih(2) d(2) by simp
    also have "\<dots> = int n" by presburger
    finally show ?thesis using s ih(1) d(1) by simp
  qed
qed

lemma isdigit_plain: "isdigit ch \<Longrightarrow> \<not> isspace ch \<and> ch \<noteq> CHR ''-'' \<and> ch \<noteq> CHR ''+''"
  by (auto simp: isdigit_def isspace_def)

lemma atoi_show_int:
  assumes "0 < v" and "v \<le> INT_MAX"
  shows "atoi (show_int v) = Some v"
proof -
  let ?s = "show_nat (nat v)"
  obtain ch cs where s: "?s = ch # cs" using show_nat_digits [of "nat v"] by (cases ?s) auto
  have dg: "isdigit ch" using show_nat_digits [of "nat v"] s by simp
  have pl: "\<not> isspace ch \<and> ch \<noteq> CHR ''-'' \<and> ch \<noteq> CHR ''+''" using dg by (rule isdigit_plain)
  have val: "digits_val (ch # cs) 0 = v"
    using show_nat_digits [of "nat v"] assms(1) unfolding s by (simp del: digits_val.simps)
  have "atoi ?s = Some v"
    unfolding atoi_def s using pl val assms by (simp add: INT_MAX_def del: digits_val.simps)
  then show ?thesis using assms(1) by (simp add: show_int_def)
qed

lemma main_invalid_P:
  assumes "getenv_P w = Some s" and "atoi s = Some v" and "v \<le> 0" and "main w = Some (evs, code)"
  shows "code = EXIT_FAILURE \<and> (\<forall>e\<in>set evs. \<not> is_spawn e)"
proof -
  have rp: "read_P (getenv_P w) = Some ([Stdout (line (''P environment variable found: '' @ show_int v)),
                           Stderr (line ''Invalid value for P. Must be positive.'')], None)"
    using assms(1-3) by (simp add: read_P_def)
  from main_shape [OF assms(4)] show ?thesis
  proof
    assume "code = EXIT_FAILURE \<and> (\<forall>e\<in>set evs. \<not> is_spawn e \<and> \<not> is_counter_init e)"
    then show ?thesis by blast
  next
    assume "\<exists>pre post n evsP.
             evs = pre @ ActiveChildren n # post
           \<and> (\<forall>e\<in>set pre. \<not> is_spawn e \<and> \<not> is_counter_init e)
           \<and> (\<forall>e\<in>set post. \<not> is_counter_init e)
           \<and> read_P (getenv_P w) = Some (evsP, Some n)"
    then show ?thesis using rp by auto
  qed
qed

text \<open>
  Claim C8, as the code has it. The worker count is 4 when \<open>P\<close> is absent from the
  environment. When \<open>P\<close> is set, the count is what \<open>atoi\<close> reads from its text: when that
  value is 0 or negative, main reports the invalid value, returns EXIT_FAILURE and has
  created no channel and no worker; when it is positive it is used as the worker count,
  also when other text follows the digits. Every positive integer up to \<open>INT_MAX\<close>, written
  in decimal, is read as itself and used.
\<close>

theorem worker_count_from_environment:
  "read_P None = Some ([], Some 4)
   \<and> (atoi s = Some v \<and> v \<le> 0 \<longrightarrow>
        read_P (Some s)
          = Some ([Stdout (line (''P environment variable found: '' @ show_int v)),
                   Stderr (line ''Invalid value for P. Must be positive.'')], None))
   \<and> (getenv_P w = Some s \<and> atoi s = Some v \<and> v \<le> 0 \<and> main w = Some (evs, code) \<longrightarrow>
        code = EXIT_FAILURE \<and> (\<forall>e\<in>set evs. \<not> is_spawn e))
   \<and> (atoi s = Some v \<and> 0 < v \<longrightarrow>
        read_P (Some s)
          = Some ([Stdout (line (''P environment variable found: '' @ show_int v))], Some v))
   \<and> (0 < n \<and> n \<le> INT_MAX \<longrightarrow>
        read_P (Some (show_int n))
          = Some ([Stdout (line (''P environment variable found: '' @ show_int n))], Some n))"
proof -
  have a: "read_P None = Some ([], Some 4)" by (simp add: read_P_def)
  have b: "atoi s = Some v \<and> v \<le> 0 \<longrightarrow>
        read_P (Some s)
          = Some ([Stdout (line (''P environment variable found: '' @ show_int v)),
                   Stderr (line ''Invalid value for P. Must be positive.'')], None)"
    by (simp add: read_P_def)
  have c: "getenv_P w = Some s \<and> atoi s = Some v \<and> v \<le> 0 \<and> main w = Some (evs, code) \<longrightarrow>
        code = EXIT_FAILURE \<and> (\<forall>e\<in>set evs. \<not> is_spawn e)"
    using main_invalid_P [of w s v evs code] by blast
  have d: "atoi s = Some v \<and> 0 < v \<longrightarrow>
        read_P (Some s)
          = Some ([Stdout (line (''P environment variable found: '' @ show_int v))], Some v)"
    by (simp add: read_P_def)
  have e: "0 < n \<and> n \<le> INT_MAX \<longrightarrow>
        read_P (Some (show_int n))
          = Some ([Stdout (line (''P environment variable found: '' @ show_int n))], Some n)"
    using atoi_show_int [of n] by (simp add: read_P_def)
  from a b c d e show ?thesis by blast
qed

theorem worker_count_from_environment_witness:
  "atoi ''0'' = Some 0
   \<and> read_P (Some ''0'')
       = Some ([Stdout (line ''P environment variable found: 0''),
                Stderr (line ''Invalid value for P. Must be positive.'')], None)
   \<and> atoi ''  +7 workers'' = Some 7
   \<and> read_P (Some ''  +7 workers'')
       = Some ([Stdout (line ''P environment variable found: 7'')], Some 7)
   \<and> read_P (Some ''12'') = Some ([Stdout (line ''P environment variable found: 12'')], Some 12)
   \<and> main (demo_world \<lparr> getenv_P := Some ''0'' \<rparr>)
       = Some ([Stdout (line ''1/4 -> File opened successfully :)''),
                Stdout (line ''2/4 -> File read successfully :)''),
                Stdout (line ''P environment variable found: 0''),
                Stderr (line ''Invalid value for P. Must be positive.'')], EXIT_FAILURE)"
proof -
  let ?w = "demo_world \<lparr> getenv_P := Some ''0'' \<rparr>"
  let ?evs = "[Stdout (line ''1/4 -> File opened successfully :)''),
               Stdout (line ''2/4 -> File read successfully :)''),
               Stdout (line ''P environment variable found: 0''),
               Stderr (line ''Invalid value for P. Must be positive.'')]"
  have a0: "atoi ''0'' = Some 0" by code_simp
  have a7: "atoi ''  +7 workers'' = Some 7" by code_simp
  have s0: "show_int 0 = ''0''" and s7: "show_int 7 = ''7''" and s12: "show_int 12 = ''12''"
    by code_simp+
  have m: "main ?w = Some (?evs, EXIT_FAILURE)" by code_simp
  have g: "getenv_P ?w = Some ''0''" by simp
  have i12: "(0::int) < 12 \<and> (12::int) \<le> INT_MAX" by (simp add: INT_MAX_def)
  note t0 = worker_count_from_environment [of "''0''" 0 ?w ?evs EXIT_FAILURE 12]
  note t7 = worker_count_from_environment [of "''  +7 workers''" 7 ?w ?evs EXIT_FAILURE 12]
  have r0: "read_P (Some ''0'')
       = Some ([Stdout (line ''P environment variable found: 0''),
                Stderr (line ''Invalid value for P. Must be positive.'')], None)"
    using t0 a0 s0 by simp
  have r7: "read_P (Some ''  +7 workers'')
       = Some ([Stdout (line ''P environment variable found: 7'')], Some 7)"
    using t7 a7 s7 by simp
  have r12: "read_P (Some ''12'') = Some ([Stdout (line ''P environment variable found: 12'')], Some 12)"
    using t0 i12 s12 by simp
  have "EXIT_FAILURE = EXIT_FAILURE \<and> (\<forall>e\<in>set ?evs. \<not> is_spawn e)"
    using t0 g a0 m by blast
  with a0 a7 r0 r7 r12 m show ?thesis by blast
qed

theorem trailing_text_accepted_counterexample:
  "\<not> positive_integer ''2abc''
   \<and> getenv_P trailing_text_world = Some ''2abc''
   \<and> main trailing_text_world
     = Some ([Stdout (line ''1/4 -> File opened successfully :)''),
              Stdout (line ''2/4 -> File read successfully :)''),
              Stdout (line ''P environment variable found: 2''),
              Stdout (line ''Using 2 child processes for searching.''),
              ActiveChildren 2, PipeCreated 0, Forked 0, PipeCreated 1, Forked 1,
              Waited 0, Waited 1,
              Stdout (line (''3/4 -> Character counted successfully: total 4''
                            @ '' occurrences of character '' @ quoted CHR ''a'' @ '' :)'')),
              Stdout (line ''4/4 -> Result written successfully :)''),
              Stdout (line ''All done! :)'')], EXIT_SUCCESS)"
  by code_simp

end
